theory Spec2Isabelle
  imports Main
begin

section \<open>Snapshot manager: data model\<close>

text \<open>
  The program under study is \<^verbatim>\<open>snapshot_manager.py\<close>. Its classes \<^verbatim>\<open>Mount\<close>,
  \<^verbatim>\<open>App\<close> and \<^verbatim>\<open>Configuration\<close> are plain holders of fields and become records.
\<close>

record mount =
  origin :: string
  destination :: string
  children :: "string list"

record app =
  name :: string
  containers :: "string list"
  mounts :: "mount list"

record configuration =
  retention :: int
  backup_containers :: "string list"
  monitor_url :: "string option"
  apps :: "app list"

text \<open>
  Exceptions are values. \<^verbatim>\<open>RuntimeError\<close> carries its message; \<^verbatim>\<open>KeyError\<close> the
  missing key; \<^verbatim>\<open>TOMLDecodeError\<close> is what \<^verbatim>\<open>tomllib.load\<close> raises on a malformed
  file; \<^verbatim>\<open>KeyboardInterrupt\<close> is the one exception \<^verbatim>\<open>main\<close> swallows.
\<close>

datatype error =
  RuntimeError string
  | KeyError string
  | TOMLDecodeError
  | KeyboardInterrupt

subsection \<open>Python's \<^verbatim>\<open>str\<close> of an integer and descending \<^verbatim>\<open>range\<close>\<close>

definition digit_char :: "nat \<Rightarrow> char" where
  "digit_char d = ''0123456789'' ! d"

function str_nat :: "nat \<Rightarrow> string" where
  "str_nat n = (if n < 10 then [digit_char n] else str_nat (n div 10) @ [digit_char (n mod 10)])"
  by pat_completeness auto
termination
  by (relation "measure id") auto

declare str_nat.simps [simp del]

text \<open>The text an f-string puts for \<^verbatim>\<open>{i}\<close> when \<^verbatim>\<open>i\<close> is an \<^verbatim>\<open>int\<close>.\<close>

definition str_int :: "int \<Rightarrow> string" where
  "str_int i = (if i < 0 then CHR ''-'' # str_nat (nat (- i)) else str_nat (nat i))"

text \<open>\<^verbatim>\<open>range(start, 0, -1)\<close>: \<^verbatim>\<open>start, start - 1, ..., 1\<close>, empty when \<^verbatim>\<open>start <= 0\<close>.\<close>

function range_down :: "int \<Rightarrow> int list" where
  "range_down start = (if start \<le> 0 then [] else start # range_down (start - 1))"
  by pat_completeness auto
termination
  by (relation "measure nat") auto

declare range_down.simps [simp del]

subsection \<open>The outside world\<close>

text \<open>
  Every effect of the program is a call of \<^verbatim>\<open>subprocess.run\<close> (whose only observed
  result is \<^verbatim>\<open>returncode\<close>), a call of \<^verbatim>\<open>requests.get\<close>, or the reading of the
  configuration file. The world is a state of an arbitrary type \<open>'w\<close>; an environment
  says how each call answers and changes it. Log lines are not modelled.
\<close>

datatype http_reply =
  RequestFailed
  | NotJson
  | JsonBody "bool option"

record toml_mount =
  tm_origin :: "string option"
  tm_destination :: "string option"
  tm_children :: "string list option"

record toml_app =
  ta_name :: "string option"
  ta_containers :: "string list option"
  ta_mounts :: "toml_mount list option"

record toml_config =
  tc_retention :: "int option"
  tc_backup_containers :: "string list option"
  tc_monitor_url :: "string option"

record toml_file =
  tf_config :: "toml_config option"
  tf_apps :: "toml_app list option"

datatype file_state =
  NoFile
  | Malformed
  | Parsed toml_file

record 'w env =
  subprocess_run :: "string list \<Rightarrow> 'w \<Rightarrow> int \<times> 'w"
  requests_get :: "string \<Rightarrow> (string \<times> string) list \<Rightarrow> 'w \<Rightarrow> http_reply \<times> 'w"
  config_file :: "string \<Rightarrow> file_state"

datatype event =
  Ran "string list" int
  | Got string "(string \<times> string) list" http_reply

text \<open>
  A program step takes the world and returns what it raised or returned, the world it
  left, and the external calls it made, in the order it made them (\<open>Ran argv rc\<close> for
  \<^verbatim>\<open>subprocess.run(argv)\<close> that ended with return code \<open>rc\<close>, \<open>Got url params reply\<close>
  for \<^verbatim>\<open>requests.get\<close>). The list of calls is an observation only: no step reads it.
\<close>

type_synonym 'w prog = "'w \<Rightarrow> (error + unit) \<times> 'w \<times> event list"

definition outcome :: "(error + unit) \<times> 'w \<times> event list \<Rightarrow> error + unit" where
  "outcome r = fst r"

definition world_after :: "(error + unit) \<times> 'w \<times> event list \<Rightarrow> 'w" where
  "world_after r = fst (snd r)"

definition calls :: "(error + unit) \<times> 'w \<times> event list \<Rightarrow> event list" where
  "calls r = snd (snd r)"

definition skip :: "'w prog" where
  "skip w = (Inr (), w, [])"

definition raise :: "error \<Rightarrow> 'w prog" where
  "raise e w = (Inl e, w, [])"

text \<open>Statement sequencing: the second statement runs only if the first did not raise.\<close>

definition and_then :: "'w prog \<Rightarrow> 'w prog \<Rightarrow> 'w prog" where
  "and_then p q w =
     (case p w of
        (Inl e, w1, evs) \<Rightarrow> (Inl e, w1, evs)
      | (Inr u, w1, evs) \<Rightarrow> (case q w1 of (r, w2, evs2) \<Rightarrow> (r, w2, evs @ evs2)))"

text \<open>\<^verbatim>\<open>result = subprocess.run(argv)\<close>, then the code that reads \<^verbatim>\<open>result.returncode\<close>.\<close>

definition call :: "'w env \<Rightarrow> string list \<Rightarrow> (int \<Rightarrow> 'w prog) \<Rightarrow> 'w prog" where
  "call E argv k w =
     (case subprocess_run E argv w of
        (rc, w1) \<Rightarrow> (case k rc w1 of (r, w2, evs) \<Rightarrow> (r, w2, Ran argv rc # evs)))"

text \<open>A \<^verbatim>\<open>for\<close> loop whose body may raise: the first exception ends the loop.\<close>

fun for_each :: "('a \<Rightarrow> 'w prog) \<Rightarrow> 'a list \<Rightarrow> 'w prog" where
  "for_each body [] w = (Inr (), w, [])"
| "for_each body (x # xs) w =
     (case body x w of
        (Inl e, w1, evs) \<Rightarrow> (Inl e, w1, evs)
      | (Inr u, w1, evs) \<Rightarrow>
          (case for_each body xs w1 of (r, w2, evs2) \<Rightarrow> (r, w2, evs @ evs2)))"

text \<open>\<^verbatim>\<open>try: p  except BaseException as e: h(e)\<close>.\<close>

definition handle :: "'w prog \<Rightarrow> (error \<Rightarrow> 'w prog) \<Rightarrow> 'w prog" where
  "handle p h w =
     (case p w of
        (Inl e, w1, evs) \<Rightarrow> (case h e w1 of (r, w2, evs2) \<Rightarrow> (r, w2, evs @ evs2))
      | (Inr u, w1, evs) \<Rightarrow> (Inr u, w1, evs))"

section \<open>Retention rotation\<close>

definition snapshot_aged :: "mount \<Rightarrow> int \<Rightarrow> string" where
  "snapshot_aged m i = origin m @ ''@backup-'' @ str_int i"

definition snapshot_latest :: "mount \<Rightarrow> string" where
  "snapshot_latest m = origin m @ ''@backup''"

definition zfs_list :: "string \<Rightarrow> string list" where
  "zfs_list snap = [''zfs'', ''list'', ''-r'', ''-t'', ''snapshot'', snap]"

definition zfs_destroy :: "string \<Rightarrow> string list" where
  "zfs_destroy snap = [''zfs'', ''destroy'', ''-r'', snap]"

definition zfs_rename :: "string \<Rightarrow> string \<Rightarrow> string list" where
  "zfs_rename old new = [''zfs'', ''rename'', ''-r'', old, new]"

definition zfs_snapshot :: "string \<Rightarrow> string list" where
  "zfs_snapshot snap = [''zfs'', ''snapshot'', ''-r'', snap]"

definition remove_mount_last_snapshot :: "'w env \<Rightarrow> mount \<Rightarrow> string \<Rightarrow> int \<Rightarrow> 'w prog" where
  "remove_mount_last_snapshot E m app_name keep =
     call E (zfs_list (snapshot_aged m keep)) (\<lambda>rc.
       if rc = 0 then
         call E (zfs_destroy (snapshot_aged m keep)) (\<lambda>rc.
           if rc \<noteq> 0 then
             raise (RuntimeError (''Failed to destroy '' @ app_name @ '' '' @ origin m
               @ '' snapshot with age '' @ str_int keep))
           else skip)
       else skip)"

text \<open>The body of the loop of \<^verbatim>\<open>rename_mount_snapshots\<close>, for one \<^verbatim>\<open>i\<close>.\<close>

definition rename_mount_snapshot :: "'w env \<Rightarrow> mount \<Rightarrow> string \<Rightarrow> int \<Rightarrow> 'w prog" where
  "rename_mount_snapshot E m app_name i =
     call E (zfs_list (snapshot_aged m i)) (\<lambda>rc.
       if rc = 0 then
         call E (zfs_rename (snapshot_aged m i) (snapshot_aged m (i + 1))) (\<lambda>rc.
           if rc \<noteq> 0 then
             raise (RuntimeError (''Failed to rename '' @ app_name @ '' '' @ origin m
               @ '' snapshot with age '' @ str_int i))
           else skip)
       else skip)"

definition rename_mount_snapshots :: "'w env \<Rightarrow> mount \<Rightarrow> string \<Rightarrow> int \<Rightarrow> 'w prog" where
  "rename_mount_snapshots E m app_name keep =
     for_each (rename_mount_snapshot E m app_name) (range_down (keep - 1))"

definition rename_mount_latest_snapshot :: "'w env \<Rightarrow> mount \<Rightarrow> string \<Rightarrow> 'w prog" where
  "rename_mount_latest_snapshot E m app_name =
     call E (zfs_list (snapshot_latest m)) (\<lambda>rc.
       if rc = 0 then
         call E (zfs_rename (snapshot_latest m) (snapshot_aged m 1)) (\<lambda>rc.
           if rc \<noteq> 0 then
             raise (RuntimeError (''Failed to rename '' @ app_name @ '' '' @ origin m
               @ '' snapshot''))
           else skip)
       else skip)"

definition remove_last_snapshot :: "'w env \<Rightarrow> app \<Rightarrow> int \<Rightarrow> 'w prog" where
  "remove_last_snapshot E a keep =
     for_each (\<lambda>m. remove_mount_last_snapshot E m (name a) keep) (mounts a)"

text \<open>The body of the loop of \<^verbatim>\<open>archive_snapshots\<close>, for one mount.\<close>

definition archive_mount :: "'w env \<Rightarrow> mount \<Rightarrow> string \<Rightarrow> int \<Rightarrow> 'w prog" where
  "archive_mount E m app_name keep =
     and_then (remove_mount_last_snapshot E m app_name keep)
       (and_then (rename_mount_snapshots E m app_name keep)
          (rename_mount_latest_snapshot E m app_name))"

definition archive_snapshots :: "'w env \<Rightarrow> app \<Rightarrow> int \<Rightarrow> 'w prog" where
  "archive_snapshots E a keep =
     for_each (\<lambda>m. archive_mount E m (name a) keep) (mounts a)"

section \<open>Containers, snapshots and mounts\<close>

definition docker_stop :: "string list \<Rightarrow> string list" where
  "docker_stop cs = [''docker'', ''stop''] @ rev cs"

definition docker_start :: "string list \<Rightarrow> string list" where
  "docker_start cs = [''docker'', ''start''] @ cs"

definition stop_containers :: "'w env \<Rightarrow> app \<Rightarrow> 'w prog" where
  "stop_containers E a =
     call E (docker_stop (containers a)) (\<lambda>rc.
       if rc \<noteq> 0 then raise (RuntimeError (''Failed to stop '' @ name a @ '' container(s)''))
       else skip)"

definition snapshot_mounts :: "'w env \<Rightarrow> app \<Rightarrow> 'w prog" where
  "snapshot_mounts E a =
     for_each (\<lambda>m.
       call E (zfs_snapshot (snapshot_latest m)) (\<lambda>rc.
         if rc \<noteq> 0 then
           raise (RuntimeError (''Failed to create '' @ name a @ '' '' @ origin m @ '' snapshot''))
         else skip))
       (mounts a)"

definition start_containers :: "'w env \<Rightarrow> app \<Rightarrow> 'w prog" where
  "start_containers E a =
     call E (docker_start (containers a)) (\<lambda>rc.
       if rc \<noteq> 0 then raise (RuntimeError (''Failed to start '' @ name a @ '' container(s)''))
       else skip)"

definition do_snapshot :: "'w env \<Rightarrow> app \<Rightarrow> int \<Rightarrow> 'w prog" where
  "do_snapshot E a keep =
     and_then (archive_snapshots E a keep)
       (and_then (if containers a \<noteq> [] then stop_containers E a else skip)
          (and_then (snapshot_mounts E a)
             (if containers a \<noteq> [] then start_containers E a else skip)))"

definition child_path :: "mount \<Rightarrow> string \<Rightarrow> string" where
  "child_path m child = destination m @ ''/'' @ child"

definition child_snapshot :: "mount \<Rightarrow> string \<Rightarrow> string" where
  "child_snapshot m child = origin m @ ''/'' @ child @ ''@backup''"

definition mountpoint_q :: "string \<Rightarrow> string list" where
  "mountpoint_q path = [''mountpoint'', ''-q'', path]"

definition umount :: "string \<Rightarrow> string list" where
  "umount path = [''umount'', path]"

definition mkdir_p :: "string \<Rightarrow> string list" where
  "mkdir_p path = [''mkdir'', ''-p'', path]"

definition mount_zfs :: "string \<Rightarrow> string \<Rightarrow> string list" where
  "mount_zfs snap path = [''mount'', ''-t'', ''zfs'', snap, path]"

definition unmount_mount :: "'w env \<Rightarrow> mount \<Rightarrow> string \<Rightarrow> 'w prog" where
  "unmount_mount E m app_name =
     call E (mountpoint_q (destination m)) (\<lambda>rc.
       if rc = 0 then
         and_then
           (for_each (\<lambda>child.
              call E (mountpoint_q (child_path m child)) (\<lambda>rc.
                if rc = 0 then
                  call E (umount (child_path m child)) (\<lambda>rc.
                    if rc \<noteq> 0 then
                      raise (RuntimeError (''Failed to unmount '' @ app_name @ '' ''
                        @ child_path m child @ '' snapshot''))
                    else skip)
                else skip))
              (children m))
           (call E (umount (destination m)) (\<lambda>rc.
              if rc \<noteq> 0 then
                raise (RuntimeError (''Failed to unmount '' @ app_name @ '' ''
                  @ destination m @ '' snapshot''))
              else skip))
       else skip)"

definition mount_mount :: "'w env \<Rightarrow> mount \<Rightarrow> string \<Rightarrow> 'w prog" where
  "mount_mount E m app_name =
     call E (mkdir_p (destination m)) (\<lambda>rc.
       if rc \<noteq> 0 then
         raise (RuntimeError (''Failed to create '' @ app_name @ '' '' @ destination m
           @ '' top-level directory''))
       else
         call E (mount_zfs (snapshot_latest m) (destination m)) (\<lambda>rc.
           if rc \<noteq> 0 then
             raise (RuntimeError (''Failed to mount '' @ app_name @ '' snapshot ''
               @ snapshot_latest m @ '' at '' @ destination m))
           else
             for_each (\<lambda>child.
               call E (mount_zfs (child_snapshot m child) (child_path m child)) (\<lambda>rc.
                 if rc \<noteq> 0 then
                   raise (RuntimeError (''Failed to mount '' @ app_name @ '' snapshot ''
                     @ child_snapshot m child @ '' at '' @ child_path m child))
                 else skip))
               (children m)))"

definition do_mount :: "'w env \<Rightarrow> app \<Rightarrow> 'w prog" where
  "do_mount E a =
     for_each (\<lambda>m. and_then (unmount_mount E m (name a)) (mount_mount E m (name a))) (mounts a)"

definition stop_backup_containers :: "'w env \<Rightarrow> string list \<Rightarrow> 'w prog" where
  "stop_backup_containers E bcs =
     call E (docker_stop bcs) (\<lambda>rc.
       if rc \<noteq> 0 then raise (RuntimeError ''Failed to stop backup container(s)'') else skip)"

definition start_backup_containers :: "'w env \<Rightarrow> string list \<Rightarrow> 'w prog" where
  "start_backup_containers E bcs =
     call E (docker_start bcs) (\<lambda>rc.
       if rc \<noteq> 0 then raise (RuntimeError ''Failed to start backup container(s)'') else skip)"

section \<open>Notification and the backup cycle\<close>

text \<open>
  \<^verbatim>\<open>send_notification\<close> swallows every exception of the request itself and a body that
  is not JSON. A JSON body without the key \<^verbatim>\<open>ok\<close> is read by \<^verbatim>\<open>response_data["ok"]\<close>
  inside a \<^verbatim>\<open>try\<close> that catches \<^verbatim>\<open>JSONDecodeError\<close> only, so the \<^verbatim>\<open>KeyError\<close> escapes.
\<close>

definition notify_params :: "string \<Rightarrow> string \<Rightarrow> (string \<times> string) list" where
  "notify_params status message = [(''status'', status), (''msg'', message)]"

definition send_notification :: "'w env \<Rightarrow> string \<Rightarrow> string \<Rightarrow> string \<Rightarrow> 'w prog" where
  "send_notification E url status message w =
     (case requests_get E url (notify_params status message) w of
        (reply, w1) \<Rightarrow>
          (case reply of
             RequestFailed \<Rightarrow> Inr ()
           | NotJson \<Rightarrow> Inr ()
           | JsonBody None \<Rightarrow> Inl (KeyError ''ok'')
           | JsonBody (Some ok) \<Rightarrow> Inr (),
           w1, [Got url (notify_params status message) reply]))"

definition snapshot_manager ::
  "'w env \<Rightarrow> int \<Rightarrow> string list \<Rightarrow> string option \<Rightarrow> app list \<Rightarrow> 'w prog" where
  "snapshot_manager E keep bcs url aps =
     and_then (case url of None \<Rightarrow> skip | Some u \<Rightarrow> send_notification E u ''up'' ''start'')
       (and_then (for_each (\<lambda>a. do_snapshot E a keep) aps)
          (and_then (if bcs \<noteq> [] then stop_backup_containers E bcs else skip)
             (and_then (for_each (do_mount E) aps)
                (and_then (if bcs \<noteq> [] then start_backup_containers E bcs else skip)
                   (and_then (for_each (\<lambda>a. remove_last_snapshot E a keep) aps)
                      (case url of None \<Rightarrow> skip
                       | Some u \<Rightarrow> send_notification E u ''up'' ''finish''))))))"

section \<open>Configuration and entry point\<close>

definition DEFAULT_RETENTION :: int where
  "DEFAULT_RETENTION = 14"

fun map_result :: "('a \<Rightarrow> error + 'b) \<Rightarrow> 'a list \<Rightarrow> error + 'b list" where
  "map_result f [] = Inr []"
| "map_result f (x # xs) =
     (case f x of
        Inl e \<Rightarrow> Inl e
      | Inr y \<Rightarrow> (case map_result f xs of Inl e \<Rightarrow> Inl e | Inr ys \<Rightarrow> Inr (y # ys)))"

definition read_mount :: "toml_mount \<Rightarrow> error + mount" where
  "read_mount t =
     (case tm_origin t of
        None \<Rightarrow> Inl (KeyError ''origin'')
      | Some orig \<Rightarrow>
          (case tm_destination t of
             None \<Rightarrow> Inl (KeyError ''destination'')
           | Some dest \<Rightarrow>
               Inr \<lparr>origin = orig, destination = dest,
                    children = (case tm_children t of None \<Rightarrow> [] | Some cs \<Rightarrow> cs)\<rparr>))"

definition read_app :: "toml_app \<Rightarrow> error + app" where
  "read_app t =
     (case ta_name t of
        None \<Rightarrow> Inl (KeyError ''name'')
      | Some nm \<Rightarrow>
          (case ta_containers t of
             None \<Rightarrow> Inl (KeyError ''containers'')
           | Some cs \<Rightarrow>
               (case map_result read_mount (case ta_mounts t of None \<Rightarrow> [] | Some ms \<Rightarrow> ms) of
                  Inl e \<Rightarrow> Inl e
                | Inr ms \<Rightarrow> Inr \<lparr>name = nm, containers = cs, mounts = ms\<rparr>)))"

definition read_config ::
  "'w env \<Rightarrow> string \<Rightarrow> int option \<Rightarrow> string list option \<Rightarrow> string option
    \<Rightarrow> error + configuration" where
  "read_config E config_path input_retention input_backup_containers input_monitor_url =
     (case config_file E config_path of
        NoFile \<Rightarrow>
          Inl (RuntimeError (''Configuration file '' @ [CHR 0x22] @ config_path @ [CHR 0x22]
            @ '' does not exist''))
      | Malformed \<Rightarrow> Inl TOMLDecodeError
      | Parsed f \<Rightarrow>
          (case tf_config f of
             None \<Rightarrow> Inl (KeyError ''config'')
           | Some c \<Rightarrow>
               (case map_result read_app (case tf_apps f of None \<Rightarrow> [] | Some ts \<Rightarrow> ts) of
                  Inl e \<Rightarrow> Inl e
                | Inr aps \<Rightarrow>
                    Inr \<lparr>retention =
                           (case input_retention of
                              Some r \<Rightarrow> r
                            | None \<Rightarrow>
                                (case tc_retention c of Some r \<Rightarrow> r | None \<Rightarrow> DEFAULT_RETENTION)),
                         backup_containers =
                           (case input_backup_containers of
                              Some b \<Rightarrow> b
                            | None \<Rightarrow>
                                (case tc_backup_containers c of Some b \<Rightarrow> b | None \<Rightarrow> [])),
                         monitor_url =
                           (case input_monitor_url of
                              Some u \<Rightarrow> Some u
                            | None \<Rightarrow> tc_monitor_url c),
                         apps = aps\<rparr>)))"

text \<open>The namespace \<^verbatim>\<open>argparse\<close> hands to \<^verbatim>\<open>main\<close>.\<close>

record args =
  arg_config :: string
  arg_retention :: "int option"
  arg_backup_containers :: "string list option"
  arg_monitor_url :: "string option"
  arg_verbosity :: nat

definition snapshot_manager_main :: "'w env \<Rightarrow> args \<Rightarrow> 'w prog" where
  "snapshot_manager_main E a =
     (case read_config E (arg_config a) None None None of
        Inl e \<Rightarrow> raise e
      | Inr config \<Rightarrow>
          snapshot_manager E (retention config) (backup_containers config)
            (monitor_url config) (apps config))"

text \<open>
  \<^verbatim>\<open>main\<close> after argument parsing. An exception that leaves \<^verbatim>\<open>main\<close> ends the process with
  a non-zero status (\<open>Inl\<close>); a normal return ends it with status 0 (\<open>Inr\<close>).
\<close>

definition main :: "'w env \<Rightarrow> args \<Rightarrow> 'w prog" where
  "main E a =
     (if arg_verbosity a > 2 then
        raise (RuntimeError (''Unsupported log level '' @ str_int (int (arg_verbosity a))
          @ ''. 0 for WARNING, 1 for INFO, 2 for DEBUG''))
      else
        handle (snapshot_manager_main E a) (\<lambda>e.
          case e of
            KeyboardInterrupt \<Rightarrow>
              (case arg_monitor_url a of
                 Some u \<Rightarrow> send_notification E u ''down'' ''interrupted''
               | None \<Rightarrow> skip)
          | _ \<Rightarrow>
              and_then
                (case arg_monitor_url a of
                   Some u \<Rightarrow> send_notification E u ''down'' ''exception''
                 | None \<Rightarrow> skip)
                (raise e)))"

section \<open>Definitions that state the properties\<close>

subsection \<open>Rotation as a list of guarded steps\<close>

text \<open>
  A guarded step is a snapshot to look for, the command to run when it is there, and the
  exception to raise when that command fails. A list of guarded steps is carried out in
  the order of the list: a step whose snapshot is absent is skipped, and the first
  failing command ends the whole list.
\<close>

text \<open>
  The commands are written out here as the specification gives them, independently of the
  functions of the program that build its command lines: the existence check of a
  snapshot, the recursive destroy, the recursive rename, and the names of the current
  snapshot and of generation \<open>i\<close> of a dataset.
\<close>

definition spec_exists_check :: "string \<Rightarrow> string list" where
  "spec_exists_check snap = [''zfs'', ''list'', ''-r'', ''-t'', ''snapshot'', snap]"

definition spec_destroy :: "string \<Rightarrow> string list" where
  "spec_destroy snap = [''zfs'', ''destroy'', ''-r'', snap]"

definition spec_rename :: "string \<Rightarrow> string \<Rightarrow> string list" where
  "spec_rename old new = [''zfs'', ''rename'', ''-r'', old, new]"

definition spec_current :: "string \<Rightarrow> string" where
  "spec_current dataset = dataset @ ''@backup''"

definition spec_generation :: "string \<Rightarrow> int \<Rightarrow> string" where
  "spec_generation dataset i = dataset @ ''@backup-'' @ str_int i"

type_synonym guarded_step = "string \<times> string list \<times> error"

fun guarded_steps :: "'w env \<Rightarrow> guarded_step list \<Rightarrow> 'w prog" where
  "guarded_steps E [] w = (Inr (), w, [])"
| "guarded_steps E ((snap, action, err) # rest) w =
     (case subprocess_run E (spec_exists_check snap) w of
        (rc, w1) \<Rightarrow>
          if rc = 0 then
            (case subprocess_run E action w1 of
               (rc2, w2) \<Rightarrow>
                 if rc2 = 0 then
                   (case guarded_steps E rest w2 of
                      (r, w3, evs) \<Rightarrow>
                        (r, w3, Ran (spec_exists_check snap) rc # Ran action rc2 # evs))
                 else (Inl err, w2, [Ran (spec_exists_check snap) rc, Ran action rc2]))
          else
            (case guarded_steps E rest w1 of
               (r, w3, evs) \<Rightarrow> (r, w3, Ran (spec_exists_check snap) rc # evs)))"

text \<open>
  The steps of \<open>archive\<close> for one mount, as the specification lists them: destroy
  generation \<open>keep\<close>; rename generation \<open>i\<close> to \<open>i + 1\<close> for \<open>i\<close> from \<open>keep - 1\<close>
  down to 1; rename the current snapshot to generation 1.
\<close>

definition archive_steps :: "mount \<Rightarrow> string \<Rightarrow> int \<Rightarrow> guarded_step list" where
  "archive_steps m app_name keep =
     [(spec_generation (origin m) keep, spec_destroy (spec_generation (origin m) keep),
       RuntimeError (''Failed to destroy '' @ app_name @ '' '' @ origin m
         @ '' snapshot with age '' @ str_int keep))]
     @ map (\<lambda>i. (spec_generation (origin m) i,
                 spec_rename (spec_generation (origin m) i) (spec_generation (origin m) (i + 1)),
                 RuntimeError (''Failed to rename '' @ app_name @ '' '' @ origin m
                   @ '' snapshot with age '' @ str_int i)))
         (rev [1..keep - 1])
     @ [(spec_current (origin m),
         spec_rename (spec_current (origin m)) (spec_generation (origin m) 1),
         RuntimeError (''Failed to rename '' @ app_name @ '' '' @ origin m @ '' snapshot''))]"


subsection \<open>Decimal numerals and snapshot names\<close>

text \<open>Reading a decimal numeral back, used to show that \<open>str_int\<close> is injective.\<close>

definition digit_value :: "char \<Rightarrow> nat" where
  "digit_value c = of_char c - 48"

definition decimal_value :: "string \<Rightarrow> nat" where
  "decimal_value s = foldl (\<lambda>acc c. 10 * acc + digit_value c) 0 s"


text \<open>The part of a name after its last \<open>@\<close>.\<close>

definition after_last_at :: "string \<Rightarrow> string" where
  "after_last_at s = rev (takeWhile (\<lambda>c. c \<noteq> CHR ''@'') (rev s))"


subsection \<open>Properties of the recorded calls\<close>

text \<open>\<open>emits P p\<close>: every external call that \<open>p\<close> makes, from any world, satisfies \<open>P\<close>.\<close>

definition emits :: "(event \<Rightarrow> bool) \<Rightarrow> 'w prog \<Rightarrow> bool" where
  "emits P p = (\<forall>w. list_all P (calls (p w)))"


text \<open>
  A destroy call is a \<^verbatim>\<open>zfs destroy\<close>; \<open>destroys_oldest M keep\<close> holds of the call
  \<^verbatim>\<open>zfs destroy -r origin@backup-keep\<close> for a mount of \<open>M\<close>.
\<close>

definition is_destroy_call :: "event \<Rightarrow> bool" where
  "is_destroy_call ev =
     (case ev of Ran argv rc \<Rightarrow> take 2 argv = [''zfs'', ''destroy''] | Got url ps reply \<Rightarrow> False)"

definition destroys_oldest :: "mount set \<Rightarrow> int \<Rightarrow> event \<Rightarrow> bool" where
  "destroys_oldest M keep ev =
     (\<exists>m rc. m \<in> M \<and> ev = Ran (zfs_destroy (snapshot_aged m keep)) rc)"

definition destroy_ok :: "mount set \<Rightarrow> int \<Rightarrow> event \<Rightarrow> bool" where
  "destroy_ok M keep ev = (if is_destroy_call ev then destroys_oldest M keep ev else True)"


text \<open>
  A container call is any \<^verbatim>\<open>docker\<close> command; \<open>targets_some C\<close> holds of a stop or a
  start of a non-empty container list taken from \<open>C\<close>.
\<close>

definition is_docker_call :: "event \<Rightarrow> bool" where
  "is_docker_call ev =
     (case ev of Ran argv rc \<Rightarrow> take 1 argv = [''docker''] | Got url ps reply \<Rightarrow> False)"

definition targets_some :: "string list set \<Rightarrow> event \<Rightarrow> bool" where
  "targets_some C ev =
     (\<exists>cs rc. cs \<in> C \<and> cs \<noteq> [] \<and> (ev = Ran (docker_stop cs) rc \<or> ev = Ran (docker_start cs) rc))"

definition docker_ok :: "string list set \<Rightarrow> event \<Rightarrow> bool" where
  "docker_ok C ev = (if is_docker_call ev then targets_some C ev else True)"


text \<open>A failure notification is a request whose parameters give the status \<^verbatim>\<open>down\<close>.\<close>

definition is_down_notification :: "event \<Rightarrow> bool" where
  "is_down_notification ev =
     (case ev of Ran argv rc \<Rightarrow> False | Got url ps reply \<Rightarrow> (''status'', ''down'') \<in> set ps)"


text \<open>A create call is a \<^verbatim>\<open>zfs snapshot\<close>.\<close>

definition is_create_call :: "event \<Rightarrow> bool" where
  "is_create_call ev =
     (case ev of Ran argv rc \<Rightarrow> take 2 argv = [''zfs'', ''snapshot''] | Got url ps reply \<Rightarrow> False)"


subsection \<open>The calls of a republish\<close>

text \<open>
  The calls that the specification prescribes for republishing one mount, written out
  command by command. \<open>rc_dest\<close> is the answer of the mount-point check of the
  destination and \<open>rcs\<close> the answers of the checks of the children: a child is
  unmounted when its check answers 0; the destination is unmounted after the children,
  and only when its own check answered 0; then the directory is created, the current
  snapshot mounted, and the snapshot of each child mounted, in the declared order.
\<close>

definition is_umount_call :: "event \<Rightarrow> bool" where
  "is_umount_call ev =
     (case ev of Ran argv rc \<Rightarrow> take 1 argv = [''umount''] | Got url ps reply \<Rightarrow> False)"

definition child_unmount_calls :: "mount \<Rightarrow> string \<times> int \<Rightarrow> event list" where
  "child_unmount_calls m =
     (\<lambda>(child, rc).
        Ran [''mountpoint'', ''-q'', destination m @ ''/'' @ child] rc
        # (if rc = 0 then [Ran [''umount'', destination m @ ''/'' @ child] 0] else []))"

definition republish_calls :: "mount \<Rightarrow> int \<Rightarrow> int list \<Rightarrow> event list" where
  "republish_calls m rc_dest rcs =
     Ran [''mountpoint'', ''-q'', destination m] rc_dest
     # (if rc_dest = 0 then
          concat (map (child_unmount_calls m) (zip (children m) rcs))
          @ [Ran [''umount'', destination m] 0]
        else [])
     @ [Ran [''mkdir'', ''-p'', destination m] 0,
        Ran [''mount'', ''-t'', ''zfs'', origin m @ ''@backup'', destination m] 0]
     @ map (\<lambda>child.
         Ran [''mount'', ''-t'', ''zfs'', origin m @ ''/'' @ child @ ''@backup'',
              destination m @ ''/'' @ child] 0)
         (children m)"


subsection \<open>The calls of a whole cycle\<close>

text \<open>
  The calls of one successful cycle, phase after phase, as the specification orders them
  and with every command line written out. The return codes of the existence checks and
  of the mount-point checks, and the replies of the monitor, are parameters: \<open>arcs\<close>
  gives, for each application, the answers of the checks of its rotation steps;
  \<open>shapes\<close> gives, for each application and each of its mounts, the answers of the
  mount-point checks; \<open>prcs\<close> gives, for each application, the answers of the checks of
  the prune. Every other command of a successful cycle returned 0.

  For one application, the snapshot phase is: the rotation steps of all its mounts, then
  the stop of its containers, then one \<^verbatim>\<open>zfs snapshot\<close> per mount, then the start of its
  containers; a stop or a start is present only for a non-empty list. The cycle is: the
  start notification; the snapshot phase of every application, in order; the stop of the
  backup containers; the republish of every mount of every application, in order; the
  start of the backup containers; the prune of every application, in order; the finish
  notification.
\<close>

definition note_calls :: "string option \<Rightarrow> string \<Rightarrow> http_reply \<Rightarrow> event list" where
  "note_calls url msg reply =
     (case url of None \<Rightarrow> [] | Some u \<Rightarrow> [Got u [(''status'', ''up''), (''msg'', msg)] reply])"

definition stop_calls :: "string list \<Rightarrow> event list" where
  "stop_calls cs = (if cs \<noteq> [] then [Ran (''docker'' # ''stop'' # rev cs) 0] else [])"

definition start_calls :: "string list \<Rightarrow> event list" where
  "start_calls cs = (if cs \<noteq> [] then [Ran (''docker'' # ''start'' # cs) 0] else [])"

definition guarded_calls :: "guarded_step \<times> int \<Rightarrow> event list" where
  "guarded_calls =
     (\<lambda>((snap, action, err), rc).
        Ran (spec_exists_check snap) rc # (if rc = 0 then [Ran action 0] else []))"

definition app_archive_steps :: "app \<Rightarrow> int \<Rightarrow> guarded_step list" where
  "app_archive_steps a keep = concat (map (\<lambda>m. archive_steps m (name a) keep) (mounts a))"

definition snapshot_phase_calls :: "int \<Rightarrow> app \<Rightarrow> int list \<Rightarrow> event list" where
  "snapshot_phase_calls keep a rcs =
     concat (map guarded_calls (zip (app_archive_steps a keep) rcs))
     @ stop_calls (containers a)
     @ map (\<lambda>m. Ran [''zfs'', ''snapshot'', ''-r'', spec_current (origin m)] 0) (mounts a)
     @ start_calls (containers a)"

definition remount_phase_calls :: "app \<Rightarrow> (int \<times> int list) list \<Rightarrow> event list" where
  "remount_phase_calls a shapes =
     concat (map (\<lambda>(m, (rc, rcs)). republish_calls m rc rcs) (zip (mounts a) shapes))"

definition prune_phase_calls :: "int \<Rightarrow> app \<Rightarrow> int list \<Rightarrow> event list" where
  "prune_phase_calls keep a rcs =
     concat (map (\<lambda>(m, rc).
         Ran (spec_exists_check (spec_generation (origin m) keep)) rc
         # (if rc = 0 then [Ran (spec_destroy (spec_generation (origin m) keep)) 0] else []))
       (zip (mounts a) rcs))"

definition cycle_calls ::
  "int \<Rightarrow> string list \<Rightarrow> string option \<Rightarrow> app list \<Rightarrow> http_reply \<Rightarrow> http_reply
    \<Rightarrow> int list list \<Rightarrow> (int \<times> int list) list list \<Rightarrow> int list list \<Rightarrow> event list" where
  "cycle_calls keep bcs url aps reply1 reply2 arcs shapes prcs =
     note_calls url ''start'' reply1
     @ concat (map (\<lambda>(a, rcs). snapshot_phase_calls keep a rcs) (zip aps arcs))
     @ stop_calls bcs
     @ concat (map (\<lambda>(a, sh). remount_phase_calls a sh) (zip aps shapes))
     @ start_calls bcs
     @ concat (map (\<lambda>(a, rcs). prune_phase_calls keep a rcs) (zip aps prcs))
     @ note_calls url ''finish'' reply2"


subsection \<open>A model of the snapshot tool\<close>

text \<open>
  The snapshot tool is outside the program. Where a property depends on what the tool
  does, it is stated against this model of it (specification, sections 4.3 and 6): the
  world is the set of existing snapshot names; \<^verbatim>\<open>zfs list\<close> succeeds exactly on an
  existing name; \<^verbatim>\<open>zfs destroy\<close> removes an existing name and fails on a missing one;
  \<^verbatim>\<open>zfs rename\<close> moves an existing name to a free one and fails otherwise;
  \<^verbatim>\<open>zfs snapshot\<close> adds a free name and fails on an existing one. Every other command
  succeeds and leaves the snapshots alone, unless the environment is told to make it
  fail. The world also keeps the list of all snapshot sets it went through.
\<close>

record zfs_world =
  snapshots :: "string set"
  history :: "string set list"

definition record_state :: "string set \<Rightarrow> zfs_world \<Rightarrow> zfs_world" where
  "record_state S w = \<lparr>snapshots = S, history = history w @ [S]\<rparr>"

definition zfs_step :: "string list \<Rightarrow> zfs_world \<Rightarrow> int \<times> zfs_world" where
  "zfs_step argv w =
     (if length argv = 6 \<and> take 5 argv = [''zfs'', ''list'', ''-r'', ''-t'', ''snapshot''] then
        (if argv ! 5 \<in> snapshots w then 0 else 1, w)
      else if length argv = 4 \<and> take 3 argv = [''zfs'', ''destroy'', ''-r''] then
        (if argv ! 3 \<in> snapshots w
         then (0, record_state (snapshots w - {argv ! 3}) w)
         else (1, w))
      else if length argv = 5 \<and> take 3 argv = [''zfs'', ''rename'', ''-r''] then
        (if argv ! 3 \<in> snapshots w \<and> argv ! 4 \<notin> snapshots w
         then (0, record_state (insert (argv ! 4) (snapshots w - {argv ! 3})) w)
         else (1, w))
      else if length argv = 4 \<and> take 3 argv = [''zfs'', ''snapshot'', ''-r''] then
        (if argv ! 3 \<notin> snapshots w
         then (0, record_state (insert (argv ! 3) (snapshots w)) w)
         else (1, w))
      else (0, w))"

definition zfs_env :: "(string list \<Rightarrow> bool) \<Rightarrow> file_state \<Rightarrow> zfs_world env" where
  "zfs_env fails file =
     \<lparr>subprocess_run = (\<lambda>argv w. if fails argv then (1, w) else zfs_step argv w),
      requests_get = (\<lambda>url ps w. (JsonBody (Some True), w)),
      config_file = (\<lambda>path. file)\<rparr>"


subsection \<open>The snapshots after a rotation\<close>

text \<open>
  What \<open>archive\<close> makes of a set \<open>S\<close> of existing snapshot names, for the dataset
  \<open>d\<close> and retention \<open>keep\<close>, read off the specification: the names outside the
  scheme stay; the current snapshot, if there, becomes generation 1; generation \<open>i\<close>
  below \<open>keep\<close>, if there, becomes generation \<open>i + 1\<close>; generation \<open>keep\<close> is gone.
  \<open>shifted d k S\<close> is the part of it done by the renames of generations \<open>k\<close> down to 1.
\<close>

definition shifted :: "string \<Rightarrow> int \<Rightarrow> string set \<Rightarrow> string set" where
  "shifted d k S =
     (S - spec_generation d ` {1..k})
     \<union> (\<lambda>i. spec_generation d (i + 1)) ` {i \<in> {1..k}. spec_generation d i \<in> S}"

definition rotated :: "string \<Rightarrow> int \<Rightarrow> string set \<Rightarrow> string set" where
  "rotated d keep S =
     (S - insert (spec_current d) (spec_generation d ` {1..keep}))
     \<union> (if spec_current d \<in> S then {spec_generation d 1} else {})
     \<union> (\<lambda>i. spec_generation d (i + 1)) ` {i \<in> {1..keep - 1}. spec_generation d i \<in> S}"


subsection \<open>Consecutive cycles\<close>

text \<open>
  \<open>cycle_state d keep S\<close> is what one successful cycle makes of the snapshots \<open>S\<close> of
  dataset \<open>d\<close>: the rotation, then the new current snapshot, then the removal of
  generation \<open>keep\<close>. \<open>run_cycles n p\<close> runs \<open>p\<close> \<open>n\<close> times in a row, stopping at the
  first run that raises. \<open>expected_after d keep n\<close> is the set of snapshots of \<open>d\<close>
  after \<open>n\<close> cycles that started with none: the current one and the generations 1 to
  \<open>n - 1\<close>, but never beyond generation \<open>keep - 1\<close>.
\<close>

definition cycle_state :: "string \<Rightarrow> int \<Rightarrow> string set \<Rightarrow> string set" where
  "cycle_state d keep S =
     insert (spec_current d) (rotated d keep S) - {spec_generation d keep}"

fun run_cycles :: "nat \<Rightarrow> 'w prog \<Rightarrow> 'w prog" where
  "run_cycles 0 p = skip"
| "run_cycles (Suc n) p = and_then p (run_cycles n p)"

definition expected_after :: "string \<Rightarrow> int \<Rightarrow> nat \<Rightarrow> string set" where
  "expected_after d keep n =
     (if n = 0 then {}
      else insert (spec_current d) (spec_generation d ` {1..min (int n - 1) (keep - 1)}))"


subsection \<open>Successful runs and invariants of the world\<close>

text \<open>
  \<open>runs_to p w w'\<close>: from the world \<open>w\<close>, \<open>p\<close> returns normally and leaves the world
  \<open>w'\<close>. \<open>idle p\<close>: \<open>p\<close> always returns normally and leaves the world as it was.
  \<open>keeps I p\<close>: whatever \<open>p\<close> does, and whether it raises or not, it takes a world
  satisfying \<open>I\<close> to a world satisfying \<open>I\<close>. \<open>bounded A w\<close>: the snapshots of \<open>w\<close>,
  and every set of snapshots \<open>w\<close> went through, lie within \<open>A\<close>.
\<close>

definition runs_to :: "'w prog \<Rightarrow> 'w \<Rightarrow> 'w \<Rightarrow> bool" where
  "runs_to p w w' = (\<exists>evs. p w = (Inr (), w', evs))"

definition idle :: "'w prog \<Rightarrow> bool" where
  "idle p = (\<forall>w. runs_to p w w)"

definition keeps :: "('w \<Rightarrow> bool) \<Rightarrow> 'w prog \<Rightarrow> bool" where
  "keeps I p = (\<forall>w. I w \<longrightarrow> I (world_after (p w)))"

definition bounded :: "string set \<Rightarrow> zfs_world \<Rightarrow> bool" where
  "bounded A w = (snapshots w \<subseteq> A \<and> list_all (\<lambda>S. S \<subseteq> A) (history w))"


subsection \<open>Example runs\<close>

definition blog :: app where
  "blog = \<lparr>name = ''blog'', containers = [],
            mounts = [\<lparr>origin = ''tank/blog'', destination = ''/mnt/blog'', children = []\<rparr>]\<rparr>"

definition web_app :: app where
  "web_app = \<lparr>name = ''web'', containers = [''nginx'', ''db''],
     mounts = [\<lparr>origin = ''tank/web'', destination = ''/mnt/web'', children = [''db'']\<rparr>]\<rparr>"

definition empty_world :: zfs_world where
  "empty_world = \<lparr>snapshots = {}, history = []\<rparr>"

definition never_fails :: "string list \<Rightarrow> bool" where
  "never_fails argv = False"

definition stop_fails :: "string list \<Rightarrow> bool" where
  "stop_fails argv = (take 2 argv = [''docker'', ''stop''])"

definition three_snapshots :: zfs_world where
  "three_snapshots =
     \<lparr>snapshots = {''tank/blog@backup'', ''tank/blog@backup-1'', ''tank/blog@backup-2''},
      history = []\<rparr>"

text \<open>
  A configuration file that declares an application the way \<^verbatim>\<open>read_config\<close> expects it,
  with every key present.
\<close>

definition toml_of_mount :: "mount \<Rightarrow> toml_mount" where
  "toml_of_mount m =
     \<lparr>tm_origin = Some (origin m), tm_destination = Some (destination m),
      tm_children = Some (children m)\<rparr>"

definition toml_of_app :: "app \<Rightarrow> toml_app" where
  "toml_of_app a =
     \<lparr>ta_name = Some (name a), ta_containers = Some (containers a),
      ta_mounts = Some (map toml_of_mount (mounts a))\<rparr>"

text \<open>
  A file with \<^verbatim>\<open>retention = 5\<close> and the application \<open>blog\<close>, the command line
  \<^verbatim>\<open>--retention 3\<close>, and a world holding generations 3 and 5 of \<open>blog\<close>.
\<close>

definition retention_five_file :: toml_file where
  "retention_five_file =
     \<lparr>tf_config = Some \<lparr>tc_retention = Some 5, tc_backup_containers = None,
                         tc_monitor_url = None\<rparr>,
      tf_apps = Some [toml_of_app blog]\<rparr>"

definition retention_three_args :: args where
  "retention_three_args =
     \<lparr>arg_config = ''config.toml'', arg_retention = Some 3, arg_backup_containers = None,
      arg_monitor_url = None, arg_verbosity = 0\<rparr>"

definition two_generations :: zfs_world where
  "two_generations =
     \<lparr>snapshots = {''tank/blog@backup-3'', ''tank/blog@backup-5''}, history = []\<rparr>"

text \<open>
  A file with \<^verbatim>\<open>retention = 2\<close>, \<^verbatim>\<open>monitor-url = "http://kuma"\<close> and the application
  \<open>web_app\<close>, and a command line without any option.
\<close>

definition monitored_file :: toml_file where
  "monitored_file =
     \<lparr>tf_config = Some \<lparr>tc_retention = Some 2, tc_backup_containers = None,
                         tc_monitor_url = Some ''http://kuma''\<rparr>,
      tf_apps = Some [toml_of_app web_app]\<rparr>"

definition plain_args :: args where
  "plain_args =
     \<lparr>arg_config = ''config.toml'', arg_retention = None, arg_backup_containers = None,
      arg_monitor_url = None, arg_verbosity = 0\<rparr>"

text \<open>
  A mount with two children, and two environments: one where the child \<^verbatim>\<open>db\<close> is
  not a mount point, one where nothing is.
\<close>

definition web_mount :: mount where
  "web_mount = \<lparr>origin = ''tank/web'', destination = ''/mnt/web'', children = [''db'', ''cache'']\<rparr>"

definition db_not_mounted :: "string list \<Rightarrow> bool" where
  "db_not_mounted argv = (argv = [''mountpoint'', ''-q'', ''/mnt/web/db''])"

definition nothing_mounted :: "string list \<Rightarrow> bool" where
  "nothing_mounted argv = (take 1 argv = [''mountpoint''])"

definition one_generation :: zfs_world where
  "one_generation = \<lparr>snapshots = {''tank/blog@backup-1''}, history = []\<rparr>"

text \<open>
  The calls of one cycle with retention 2, the backup container \<^verbatim>\<open>rsync\<close>, a monitor
  and the applications \<open>web_app\<close> and \<open>blog\<close>, from the world \<open>three_snapshots\<close>.
\<close>

definition two_app_trace :: "event list" where
  "two_app_trace =
      [Got ''http://kuma'' [(''status'', ''up''), (''msg'', ''start'')] (JsonBody (Some True)),
       Ran [''zfs'', ''list'', ''-r'', ''-t'', ''snapshot'', ''tank/web@backup-2''] 1,
       Ran [''zfs'', ''list'', ''-r'', ''-t'', ''snapshot'', ''tank/web@backup-1''] 1,
       Ran [''zfs'', ''list'', ''-r'', ''-t'', ''snapshot'', ''tank/web@backup''] 1,
       Ran [''docker'', ''stop'', ''db'', ''nginx''] 0,
       Ran [''zfs'', ''snapshot'', ''-r'', ''tank/web@backup''] 0,
       Ran [''docker'', ''start'', ''nginx'', ''db''] 0,
       Ran [''zfs'', ''list'', ''-r'', ''-t'', ''snapshot'', ''tank/blog@backup-2''] 0,
       Ran [''zfs'', ''destroy'', ''-r'', ''tank/blog@backup-2''] 0,
       Ran [''zfs'', ''list'', ''-r'', ''-t'', ''snapshot'', ''tank/blog@backup-1''] 0,
       Ran [''zfs'', ''rename'', ''-r'', ''tank/blog@backup-1'', ''tank/blog@backup-2''] 0,
       Ran [''zfs'', ''list'', ''-r'', ''-t'', ''snapshot'', ''tank/blog@backup''] 0,
       Ran [''zfs'', ''rename'', ''-r'', ''tank/blog@backup'', ''tank/blog@backup-1''] 0,
       Ran [''zfs'', ''snapshot'', ''-r'', ''tank/blog@backup''] 0,
       Ran [''docker'', ''stop'', ''rsync''] 0,
       Ran [''mountpoint'', ''-q'', ''/mnt/web''] 0,
       Ran [''mountpoint'', ''-q'', ''/mnt/web/db''] 0,
       Ran [''umount'', ''/mnt/web/db''] 0,
       Ran [''umount'', ''/mnt/web''] 0,
       Ran [''mkdir'', ''-p'', ''/mnt/web''] 0,
       Ran [''mount'', ''-t'', ''zfs'', ''tank/web@backup'', ''/mnt/web''] 0,
       Ran [''mount'', ''-t'', ''zfs'', ''tank/web/db@backup'', ''/mnt/web/db''] 0,
       Ran [''mountpoint'', ''-q'', ''/mnt/blog''] 0,
       Ran [''umount'', ''/mnt/blog''] 0,
       Ran [''mkdir'', ''-p'', ''/mnt/blog''] 0,
       Ran [''mount'', ''-t'', ''zfs'', ''tank/blog@backup'', ''/mnt/blog''] 0,
       Ran [''docker'', ''start'', ''rsync''] 0,
       Ran [''zfs'', ''list'', ''-r'', ''-t'', ''snapshot'', ''tank/web@backup-2''] 1,
       Ran [''zfs'', ''list'', ''-r'', ''-t'', ''snapshot'', ''tank/blog@backup-2''] 0,
       Ran [''zfs'', ''destroy'', ''-r'', ''tank/blog@backup-2''] 0,
       Got ''http://kuma'' [(''status'', ''up''), (''msg'', ''finish'')] (JsonBody (Some True))]"

section \<open>Rotation: the steps of archive\<close>

lemma range_down_rev_upto: "range_down n = rev [1..n]"
proof (induction n rule: range_down.induct)
  case (1 start)
  show ?case
  proof (cases "start \<le> 0")
    case True
    then show ?thesis by (simp add: range_down.simps)
  next
    case False
    then have "[1..start] = [1..start - 1] @ [start]"
      by (simp add: upto_rec2)
    with False 1 show ?thesis
      by (subst range_down.simps) simp
  qed
qed

lemma guarded_steps_append:
  "guarded_steps E (xs @ ys) = and_then (guarded_steps E xs) (guarded_steps E ys)"
proof
  fix w
  show "guarded_steps E (xs @ ys) w = and_then (guarded_steps E xs) (guarded_steps E ys) w"
  proof (induction xs arbitrary: w)
    case Nil
    show ?case by (simp add: and_then_def)
  next
    case (Cons s xs)
    obtain snap action err where s: "s = (snap, action, err)" by (cases s) auto
    show ?case
      unfolding s using Cons.IH
      by (auto simp: and_then_def split: prod.splits sum.splits)
  qed
qed

lemma guarded_steps_single:
  "guarded_steps E [(snap, action, err)] =
     call E (spec_exists_check snap) (\<lambda>rc.
       if rc = 0 then call E action (\<lambda>rc. if rc \<noteq> 0 then raise err else skip) else skip)"
  by (rule ext) (auto simp: call_def raise_def skip_def split: prod.splits)

lemma spec_commands:
  "zfs_list snap = spec_exists_check snap"
  "zfs_destroy snap = spec_destroy snap"
  "zfs_rename old new = spec_rename old new"
  "snapshot_aged m i = spec_generation (origin m) i"
  "snapshot_latest m = spec_current (origin m)"
  by (simp_all add: zfs_list_def zfs_destroy_def zfs_rename_def snapshot_aged_def
      snapshot_latest_def spec_exists_check_def spec_destroy_def spec_rename_def
      spec_generation_def spec_current_def)

lemma for_each_guarded:
  "for_each (\<lambda>x. guarded_steps E [f x]) xs = guarded_steps E (map f xs)"
proof
  fix w
  show "for_each (\<lambda>x. guarded_steps E [f x]) xs w = guarded_steps E (map f xs) w"
  proof (induction xs arbitrary: w)
    case Nil
    show ?case by simp
  next
    case (Cons x xs)
    obtain snap action err where s: "f x = (snap, action, err)" by (cases "f x") auto
    show ?case
      using Cons.IH by (auto simp: s split: prod.splits sum.splits)
  qed
qed

lemma for_each_concat:
  "for_each (\<lambda>x. guarded_steps E (f x)) xs = guarded_steps E (concat (map f xs))"
proof
  fix w
  show "for_each (\<lambda>x. guarded_steps E (f x)) xs w = guarded_steps E (concat (map f xs)) w"
  proof (induction xs arbitrary: w)
    case Nil
    show ?case by simp
  next
    case (Cons x xs)
    show ?case
      using Cons.IH by (auto simp: guarded_steps_append and_then_def split: prod.splits sum.splits)
  qed
qed

lemma archive_mount_steps:
  "archive_mount E m app_name keep = guarded_steps E (archive_steps m app_name keep)"
  unfolding archive_mount_def archive_steps_def guarded_steps_append
    remove_mount_last_snapshot_def rename_mount_snapshots_def rename_mount_latest_snapshot_def
    rename_mount_snapshot_def range_down_rev_upto spec_commands
  by (simp only: guarded_steps_single for_each_guarded [symmetric])

lemma archive_three_snapshots:
  "archive_snapshots (zfs_env never_fails NoFile) blog 2 three_snapshots =
     (Inr (),
      \<lparr>snapshots = {''tank/blog@backup-1'', ''tank/blog@backup-2''},
       history = [{''tank/blog@backup'', ''tank/blog@backup-1''},
                  {''tank/blog@backup'', ''tank/blog@backup-2''},
                  {''tank/blog@backup-1'', ''tank/blog@backup-2''}]\<rparr>,
      [Ran [''zfs'', ''list'', ''-r'', ''-t'', ''snapshot'', ''tank/blog@backup-2''] 0,
       Ran [''zfs'', ''destroy'', ''-r'', ''tank/blog@backup-2''] 0,
       Ran [''zfs'', ''list'', ''-r'', ''-t'', ''snapshot'', ''tank/blog@backup-1''] 0,
       Ran [''zfs'', ''rename'', ''-r'', ''tank/blog@backup-1'', ''tank/blog@backup-2''] 0,
       Ran [''zfs'', ''list'', ''-r'', ''-t'', ''snapshot'', ''tank/blog@backup''] 0,
       Ran [''zfs'', ''rename'', ''-r'', ''tank/blog@backup'', ''tank/blog@backup-1''] 0])"
  by code_simp

text \<open>
  Claim C1. For every environment, application and retention, \<open>archive_snapshots\<close> is
  the guarded-step list of the specification, mount after mount: for each mount, look for
  generation \<open>keep\<close> and destroy it if present; then for \<open>i = keep - 1\<close> down to 1 look
  for generation \<open>i\<close> and rename it to \<open>i + 1\<close> if present; then look for the current
  snapshot and rename it to generation 1 if present. The two sides agree on the result,
  the world left behind and the sequence of external calls, also when a command fails.
  The step list spells out every command line and snapshot name by itself, so the
  equation fixes what is destroyed and what is renamed to what, not only the order. The
  second part runs the program on three existing snapshots with retention 2: generation
  2 is destroyed, generation 1 becomes generation 2 and the current snapshot becomes
  generation 1, by exactly six commands.
\<close>

theorem archive_snapshots_guarded_steps:
  "archive_snapshots E a keep =
     guarded_steps E (concat (map (\<lambda>m. archive_steps m (name a) keep) (mounts a)))
   \<and> archive_snapshots (zfs_env never_fails NoFile) blog 2 three_snapshots =
     (Inr (),
      \<lparr>snapshots = {''tank/blog@backup-1'', ''tank/blog@backup-2''},
       history = [{''tank/blog@backup'', ''tank/blog@backup-1''},
                  {''tank/blog@backup'', ''tank/blog@backup-2''},
                  {''tank/blog@backup-1'', ''tank/blog@backup-2''}]\<rparr>,
      [Ran [''zfs'', ''list'', ''-r'', ''-t'', ''snapshot'', ''tank/blog@backup-2''] 0,
       Ran [''zfs'', ''destroy'', ''-r'', ''tank/blog@backup-2''] 0,
       Ran [''zfs'', ''list'', ''-r'', ''-t'', ''snapshot'', ''tank/blog@backup-1''] 0,
       Ran [''zfs'', ''rename'', ''-r'', ''tank/blog@backup-1'', ''tank/blog@backup-2''] 0,
       Ran [''zfs'', ''list'', ''-r'', ''-t'', ''snapshot'', ''tank/blog@backup''] 0,
       Ran [''zfs'', ''rename'', ''-r'', ''tank/blog@backup'', ''tank/blog@backup-1''] 0])"
  unfolding archive_snapshots_def archive_mount_steps
  using archive_three_snapshots [unfolded archive_snapshots_def archive_mount_steps]
  by (simp add: for_each_concat)
section \<open>Snapshot names are unambiguous\<close>

lemma digit_cases: "d < 10 \<Longrightarrow> d \<in> {0, 1, 2, 3, 4, 5, 6, 7, 8, 9::nat}"
  by auto

lemma digit_value_digit_char: "d < 10 \<Longrightarrow> digit_value (digit_char d) = d"
  by (drule digit_cases) (auto simp: digit_value_def digit_char_def)

lemma digit_char_in_digits: "d < 10 \<Longrightarrow> digit_char d \<in> set ''0123456789''"
  by (drule digit_cases) (auto simp: digit_char_def)

lemma decimal_value_str_nat: "decimal_value (str_nat n) = n"
proof (induction n rule: str_nat.induct)
  case (1 n)
  show ?case
  proof (cases "n < 10")
    case True
    then show ?thesis
      by (subst str_nat.simps) (simp add: decimal_value_def digit_value_digit_char)
  next
    case False
    with 1 have "decimal_value (str_nat (n div 10)) = n div 10" by simp
    with False show ?thesis
      by (subst str_nat.simps) (simp add: decimal_value_def digit_value_digit_char)
  qed
qed

lemma str_nat_inj: "str_nat a = str_nat b \<Longrightarrow> a = b"
  by (metis decimal_value_str_nat)

lemma str_nat_digits: "set (str_nat n) \<subseteq> set ''0123456789''"
proof (induction n rule: str_nat.induct)
  case (1 n)
  show ?case
  proof (cases "n < 10")
    case True
    then show ?thesis
      using digit_char_in_digits [of n] by (subst str_nat.simps) simp
  next
    case False
    with 1 have "set (str_nat (n div 10)) \<subseteq> set ''0123456789''" by simp
    moreover have "digit_char (n mod 10) \<in> set ''0123456789''"
      by (rule digit_char_in_digits) simp
    ultimately show ?thesis
      using False by (subst str_nat.simps) simp
  qed
qed

lemma str_nat_not_Nil: "str_nat n \<noteq> []"
  by (subst str_nat.simps) simp

lemma str_nat_no_minus: "CHR ''-'' \<notin> set (str_nat n)"
  using str_nat_digits [of n] by auto


lemma hd_str_nat_not_minus: "hd (str_nat n) \<noteq> CHR ''-''"
proof -
  have "hd (str_nat n) \<in> set (str_nat n)"
    by (rule hd_in_set) (rule str_nat_not_Nil)
  then show ?thesis
    using str_nat_no_minus [of n] by auto
qed

lemma str_nat_not_minus_Cons: "str_nat a \<noteq> CHR ''-'' # s"
proof
  assume "str_nat a = CHR ''-'' # s"
  then have "hd (str_nat a) = CHR ''-''" by simp
  then show False using hd_str_nat_not_minus by blast
qed

lemma str_int_inj: "str_int i = str_int j \<Longrightarrow> i = j"
proof -
  assume eq: "str_int i = str_int j"
  consider "i < 0" "j < 0" | "i < 0" "\<not> j < 0" | "\<not> i < 0" "j < 0" | "\<not> i < 0" "\<not> j < 0"
    by blast
  then show "i = j"
  proof cases
    case 1
    with eq have "str_nat (nat (- i)) = str_nat (nat (- j))"
      by (simp add: str_int_def)
    then have "nat (- i) = nat (- j)" by (rule str_nat_inj)
    with 1 show ?thesis by simp
  next
    case 2
    with eq have "str_nat (nat j) = CHR ''-'' # str_nat (nat (- i))"
      by (simp add: str_int_def)
    then show ?thesis using str_nat_not_minus_Cons by blast
  next
    case 3
    with eq have "str_nat (nat i) = CHR ''-'' # str_nat (nat (- j))"
      by (simp add: str_int_def)
    then show ?thesis using str_nat_not_minus_Cons by blast
  next
    case 4
    with eq have "str_nat (nat i) = str_nat (nat j)"
      by (simp add: str_int_def)
    then have "nat i = nat j" by (rule str_nat_inj)
    with 4 show ?thesis by simp
  qed
qed

lemma str_int_no_at: "CHR ''@'' \<notin> set (str_int i)"
proof -
  have "\<And>n. CHR ''@'' \<notin> set (str_nat n)"
    using str_nat_digits by fastforce
  then show ?thesis by (simp add: str_int_def)
qed

lemma str_int_not_Nil: "str_int i \<noteq> []"
  by (simp add: str_int_def str_nat_not_Nil)

lemma last_str_nat_digit: "last (str_nat n) \<in> set ''0123456789''"
proof -
  have "last (str_nat n) \<in> set (str_nat n)"
    by (rule last_in_set) (rule str_nat_not_Nil)
  then show ?thesis using str_nat_digits [of n] by blast
qed

lemma last_str_int_not_p: "last (str_int i) \<noteq> CHR ''p''"
proof -
  have "\<And>n. last (str_nat n) \<noteq> CHR ''p''"
  proof -
    fix n
    show "last (str_nat n) \<noteq> CHR ''p''"
      using last_str_nat_digit [of n] by auto
  qed
  then show ?thesis
    by (simp add: str_int_def str_nat_not_Nil)
qed

lemma aged_not_latest: "snapshot_aged m i \<noteq> snapshot_latest m'"
proof
  assume "snapshot_aged m i = snapshot_latest m'"
  then have "last (snapshot_aged m i) = last (snapshot_latest m')" by simp
  moreover have "last (snapshot_aged m i) = last (str_int i)"
    by (simp add: snapshot_aged_def str_int_not_Nil)
  moreover have "last (snapshot_latest m') = CHR ''p''"
    by (simp add: snapshot_latest_def)
  ultimately show False
    using last_str_int_not_p [of i] by simp
qed

lemma after_last_at_append:
  assumes "CHR ''@'' \<notin> set s"
  shows "after_last_at (p @ CHR ''@'' # s) = s"
proof -
  have "takeWhile (\<lambda>c. c \<noteq> CHR ''@'') (rev s @ CHR ''@'' # rev p) = rev s"
    using assms by (simp add: takeWhile_append)
  then show ?thesis by (simp add: after_last_at_def)
qed

lemma after_last_at_aged: "after_last_at (snapshot_aged m i) = ''backup-'' @ str_int i"
proof -
  have "CHR ''@'' \<notin> set (''backup-'' @ str_int i)"
    using str_int_no_at by simp
  then have "after_last_at (origin m @ CHR ''@'' # (''backup-'' @ str_int i)) = ''backup-'' @ str_int i"
    by (rule after_last_at_append)
  then show ?thesis by (simp add: snapshot_aged_def)
qed

lemma aged_eq_iff:
  "snapshot_aged m i = snapshot_aged m' j \<longleftrightarrow> origin m = origin m' \<and> i = j"
proof
  assume eq: "snapshot_aged m i = snapshot_aged m' j"
  then have "after_last_at (snapshot_aged m i) = after_last_at (snapshot_aged m' j)" by simp
  then have "str_int i = str_int j" by (simp add: after_last_at_aged)
  then have ij: "i = j" by (rule str_int_inj)
  with eq have "origin m = origin m'" by (simp add: snapshot_aged_def)
  with ij show "origin m = origin m' \<and> i = j" by simp
next
  assume "origin m = origin m' \<and> i = j"
  then show "snapshot_aged m i = snapshot_aged m' j" by (simp add: snapshot_aged_def)
qed

section \<open>Rules for the recorded calls\<close>

lemma emitsD: "emits P p \<Longrightarrow> list_all P (calls (p w))"
  by (simp add: emits_def)

lemma emits_skip: "emits P skip"
  by (simp add: emits_def skip_def calls_def)

lemma emits_raise: "emits P (raise e)"
  by (simp add: emits_def raise_def calls_def)

lemma emits_and_then: "emits P p \<Longrightarrow> emits P q \<Longrightarrow> emits P (and_then p q)"
  unfolding emits_def
proof
  fix w
  assume p: "\<forall>w. list_all P (calls (p w))" and q: "\<forall>w. list_all P (calls (q w))"
  obtain r w1 evs where pw: "p w = (r, w1, evs)" by (cases "p w") auto
  obtain r2 w2 evs2 where qw: "q w1 = (r2, w2, evs2)" by (cases "q w1") auto
  from p pw have "list_all P evs" by (metis calls_def snd_conv)
  moreover from q qw have "list_all P evs2" by (metis calls_def snd_conv)
  ultimately show "list_all P (calls (and_then p q w))"
    by (cases r) (simp_all add: and_then_def pw qw calls_def)
qed

lemma emits_call:
  "(\<And>rc. P (Ran argv rc)) \<Longrightarrow> (\<And>rc. emits P (k rc)) \<Longrightarrow> emits P (call E argv k)"
  unfolding emits_def
proof
  fix w
  assume a: "\<And>rc. P (Ran argv rc)" and k: "\<And>rc. \<forall>w. list_all P (calls (k rc w))"
  obtain rc w1 where sw: "subprocess_run E argv w = (rc, w1)" by (cases "subprocess_run E argv w") auto
  obtain r w2 evs where kw: "k rc w1 = (r, w2, evs)" by (cases "k rc w1") auto
  from k kw have "list_all P evs" by (metis calls_def snd_conv)
  with a show "list_all P (calls (call E argv k w))"
    by (simp add: call_def sw kw calls_def)
qed

lemma emits_for_each:
  "(\<And>x. x \<in> set xs \<Longrightarrow> emits P (body x)) \<Longrightarrow> emits P (for_each body xs)"
proof (induction xs)
  case Nil
  show ?case by (simp add: emits_def calls_def)
next
  case (Cons x xs)
  have b: "emits P (body x)" using Cons.prems by simp
  have rest: "emits P (for_each body xs)" using Cons by simp
  show ?case
    unfolding emits_def
  proof
    fix w
    obtain r w1 evs where bw: "body x w = (r, w1, evs)" by (cases "body x w") auto
    obtain r2 w2 evs2 where fw: "for_each body xs w1 = (r2, w2, evs2)"
      by (cases "for_each body xs w1") auto
    from b bw have "list_all P evs" by (metis emits_def calls_def snd_conv)
    moreover from rest fw have "list_all P evs2" by (metis emits_def calls_def snd_conv)
    ultimately show "list_all P (calls (for_each body (x # xs) w))"
      by (cases r) (simp_all add: bw fw calls_def)
  qed
qed

lemma emits_if: "emits P p \<Longrightarrow> emits P q \<Longrightarrow> emits P (if b then p else q)"
  by simp

lemma emits_send_notification:
  "(\<And>reply. P (Got url (notify_params status message) reply))
    \<Longrightarrow> emits P (send_notification E url status message)"
  by (simp add: emits_def send_notification_def calls_def split: prod.splits)

lemma emits_option:
  "emits P p \<Longrightarrow> (\<And>u. emits P (q u)) \<Longrightarrow> emits P (case x of None \<Rightarrow> p | Some u \<Rightarrow> q u)"
  by (cases x) simp_all

lemmas emits_intros =
  emits_skip emits_raise emits_and_then emits_call emits_for_each emits_if
  emits_send_notification emits_option

section \<open>Only the oldest generation is ever destroyed\<close>

lemma destroy_ok_simps:
  "destroy_ok M keep (Ran (zfs_list s) rc)"
  "destroy_ok M keep (Ran (zfs_rename s t) rc)"
  "destroy_ok M keep (Ran (zfs_snapshot s) rc)"
  "destroy_ok M keep (Ran (docker_stop cs) rc)"
  "destroy_ok M keep (Ran (docker_start cs) rc)"
  "destroy_ok M keep (Ran (mountpoint_q s) rc)"
  "destroy_ok M keep (Ran (umount s) rc)"
  "destroy_ok M keep (Ran (mkdir_p s) rc)"
  "destroy_ok M keep (Ran (mount_zfs s t) rc)"
  "destroy_ok M keep (Got url ps reply)"
  by (simp_all add: destroy_ok_def is_destroy_call_def zfs_list_def zfs_rename_def
      zfs_snapshot_def docker_stop_def docker_start_def mountpoint_q_def umount_def mkdir_p_def
      mount_zfs_def)

lemma destroy_ok_destroy:
  "m \<in> M \<Longrightarrow> destroy_ok M keep (Ran (zfs_destroy (snapshot_aged m keep)) rc)"
  by (auto simp: destroy_ok_def destroys_oldest_def)

lemma destroy_remove_mount_last:
  "m \<in> M \<Longrightarrow> emits (destroy_ok M keep) (remove_mount_last_snapshot E m n keep)"
  unfolding remove_mount_last_snapshot_def
  by (intro emits_intros) (simp_all add: destroy_ok_simps destroy_ok_destroy)

lemma destroy_rename_mount_snapshots:
  "emits (destroy_ok M keep) (rename_mount_snapshots E m n keep)"
  unfolding rename_mount_snapshots_def rename_mount_snapshot_def
  by (intro emits_intros) (simp_all add: destroy_ok_simps)

lemma destroy_rename_latest:
  "emits (destroy_ok M keep) (rename_mount_latest_snapshot E m n)"
  unfolding rename_mount_latest_snapshot_def
  by (intro emits_intros) (simp_all add: destroy_ok_simps)

lemma destroy_archive:
  "set (mounts a) \<subseteq> M \<Longrightarrow> emits (destroy_ok M keep) (archive_snapshots E a keep)"
  unfolding archive_snapshots_def archive_mount_def
  by (intro emits_intros destroy_remove_mount_last destroy_rename_mount_snapshots
      destroy_rename_latest) auto

lemma destroy_remove_last:
  "set (mounts a) \<subseteq> M \<Longrightarrow> emits (destroy_ok M keep) (remove_last_snapshot E a keep)"
  unfolding remove_last_snapshot_def
  by (intro emits_intros destroy_remove_mount_last) auto

lemma destroy_do_snapshot:
  "set (mounts a) \<subseteq> M \<Longrightarrow> emits (destroy_ok M keep) (do_snapshot E a keep)"
  unfolding do_snapshot_def stop_containers_def start_containers_def snapshot_mounts_def
  by (intro emits_intros destroy_archive) (simp_all add: destroy_ok_simps)

lemma destroy_do_mount:
  "emits (destroy_ok M keep) (do_mount E a)"
  unfolding do_mount_def unmount_mount_def mount_mount_def
  by (intro emits_intros) (simp_all add: destroy_ok_simps)

lemma destroy_snapshot_manager:
  "(\<Union>a \<in> set aps. set (mounts a)) \<subseteq> M
    \<Longrightarrow> emits (destroy_ok M keep) (snapshot_manager E keep bcs url aps)"
  unfolding snapshot_manager_def stop_backup_containers_def start_backup_containers_def
  by (intro emits_intros destroy_do_snapshot destroy_do_mount destroy_remove_last)
    (auto simp: destroy_ok_simps)

lemma list_all_filter_if:
  "list_all (\<lambda>x. if P x then Q x else True) xs \<Longrightarrow> list_all Q (filter P xs)"
  by (induction xs) auto

text \<open>
  Claim C10. In every run of \<open>snapshot_manager\<close>, in any environment, every destroy call
  is \<^verbatim>\<open>zfs destroy -r origin@backup-keep\<close> for a mount of one of the run's applications.
  That name is another mount's generation \<open>i\<close> only when the origins agree and
  \<open>i = keep\<close>, and it is never the name of a current snapshot \<^verbatim>\<open>origin@backup\<close>: the
  current snapshot and the generations other than \<open>keep\<close> are never destroyed.
\<close>

theorem destroy_only_oldest_generation:
  "list_all (destroys_oldest (\<Union>a \<in> set aps. set (mounts a)) keep)
     (filter is_destroy_call (calls (snapshot_manager E keep bcs url aps w)))
   \<and> (snapshot_aged m keep = snapshot_aged m' i \<longleftrightarrow> origin m = origin m' \<and> i = keep)
   \<and> snapshot_aged m keep \<noteq> snapshot_latest m'"
proof -
  have "emits (destroy_ok (\<Union>a \<in> set aps. set (mounts a)) keep) (snapshot_manager E keep bcs url aps)"
    by (rule destroy_snapshot_manager) simp
  then have "list_all (destroy_ok (\<Union>a \<in> set aps. set (mounts a)) keep)
      (calls (snapshot_manager E keep bcs url aps w))"
    by (rule emitsD)
  then have "list_all (destroys_oldest (\<Union>a \<in> set aps. set (mounts a)) keep)
     (filter is_destroy_call (calls (snapshot_manager E keep bcs url aps w)))"
    unfolding destroy_ok_def by (rule list_all_filter_if)
  moreover have "snapshot_aged m keep = snapshot_aged m' i \<longleftrightarrow> origin m = origin m' \<and> i = keep"
    using aged_eq_iff [of m keep m' i] by auto
  ultimately show ?thesis
    using aged_not_latest by blast
qed

section \<open>Containers are never stopped or started with an empty list\<close>

lemma emits_if_cond:
  "(b \<Longrightarrow> emits P p) \<Longrightarrow> (\<not> b \<Longrightarrow> emits P q) \<Longrightarrow> emits P (if b then p else q)"
  by simp

lemma docker_ok_simps:
  "docker_ok C (Ran (zfs_list s) rc)"
  "docker_ok C (Ran (zfs_destroy s) rc)"
  "docker_ok C (Ran (zfs_rename s t) rc)"
  "docker_ok C (Ran (zfs_snapshot s) rc)"
  "docker_ok C (Ran (mountpoint_q s) rc)"
  "docker_ok C (Ran (umount s) rc)"
  "docker_ok C (Ran (mkdir_p s) rc)"
  "docker_ok C (Ran (mount_zfs s t) rc)"
  "docker_ok C (Got url ps reply)"
  by (simp_all add: docker_ok_def is_docker_call_def zfs_list_def zfs_rename_def zfs_destroy_def
      zfs_snapshot_def mountpoint_q_def umount_def mkdir_p_def mount_zfs_def)

lemma docker_ok_docker:
  "cs \<in> C \<Longrightarrow> cs \<noteq> [] \<Longrightarrow> docker_ok C (Ran (docker_stop cs) rc)"
  "cs \<in> C \<Longrightarrow> cs \<noteq> [] \<Longrightarrow> docker_ok C (Ran (docker_start cs) rc)"
  by (auto simp: docker_ok_def targets_some_def)

lemma docker_archive: "emits (docker_ok C) (archive_snapshots E a keep)"
  unfolding archive_snapshots_def archive_mount_def remove_mount_last_snapshot_def
    rename_mount_snapshots_def rename_mount_snapshot_def rename_mount_latest_snapshot_def
  by (intro emits_intros) (simp_all add: docker_ok_simps)

lemma docker_remove_last: "emits (docker_ok C) (remove_last_snapshot E a keep)"
  unfolding remove_last_snapshot_def remove_mount_last_snapshot_def
  by (intro emits_intros) (simp_all add: docker_ok_simps)

lemma docker_snapshot_mounts: "emits (docker_ok C) (snapshot_mounts E a)"
  unfolding snapshot_mounts_def
  by (intro emits_intros) (simp_all add: docker_ok_simps)

lemma docker_do_mount: "emits (docker_ok C) (do_mount E a)"
  unfolding do_mount_def unmount_mount_def mount_mount_def
  by (intro emits_intros) (simp_all add: docker_ok_simps)

lemma docker_stop_containers:
  "containers a \<in> C \<Longrightarrow> containers a \<noteq> [] \<Longrightarrow> emits (docker_ok C) (stop_containers E a)"
  unfolding stop_containers_def
  by (intro emits_intros) (simp_all add: docker_ok_docker)

lemma docker_start_containers:
  "containers a \<in> C \<Longrightarrow> containers a \<noteq> [] \<Longrightarrow> emits (docker_ok C) (start_containers E a)"
  unfolding start_containers_def
  by (intro emits_intros) (simp_all add: docker_ok_docker)

lemma docker_do_snapshot:
  "containers a \<in> C \<Longrightarrow> emits (docker_ok C) (do_snapshot E a keep)"
  unfolding do_snapshot_def
  by (intro emits_and_then emits_if_cond emits_skip docker_archive docker_snapshot_mounts
      docker_stop_containers docker_start_containers)

lemma docker_stop_backup:
  "bcs \<in> C \<Longrightarrow> bcs \<noteq> [] \<Longrightarrow> emits (docker_ok C) (stop_backup_containers E bcs)"
  unfolding stop_backup_containers_def
  by (intro emits_intros) (simp_all add: docker_ok_docker)

lemma docker_start_backup:
  "bcs \<in> C \<Longrightarrow> bcs \<noteq> [] \<Longrightarrow> emits (docker_ok C) (start_backup_containers E bcs)"
  unfolding start_backup_containers_def
  by (intro emits_intros) (simp_all add: docker_ok_docker)

lemma docker_snapshot_manager:
  "emits (docker_ok (insert bcs (containers ` set aps))) (snapshot_manager E keep bcs url aps)"
  unfolding snapshot_manager_def
  by (intro emits_and_then emits_if_cond emits_skip emits_for_each emits_option
      emits_send_notification docker_do_snapshot docker_do_mount docker_remove_last
      docker_stop_backup docker_start_backup)
    (simp_all add: docker_ok_simps)

lemma docker_stop_inj: "docker_stop cs = docker_stop cs' \<longleftrightarrow> cs = cs'"
  by (simp add: docker_stop_def)

lemma docker_start_inj: "docker_start cs = docker_start cs' \<longleftrightarrow> cs = cs'"
  by (simp add: docker_start_def)

lemma docker_stop_not_start:
  "docker_stop cs \<noteq> docker_start cs'" "docker_start cs' \<noteq> docker_stop cs"
  by (simp_all add: docker_stop_def docker_start_def)

lemma is_docker_call_docker:
  "is_docker_call (Ran (docker_stop cs) rc)" "is_docker_call (Ran (docker_start cs) rc)"
  by (simp_all add: is_docker_call_def docker_stop_def docker_start_def)

text \<open>
  Claim C9. In every run of \<open>snapshot_manager\<close>, every \<^verbatim>\<open>docker\<close> call stops or starts
  a non-empty container list that is the backup list or the list of one of the
  applications; \<^verbatim>\<open>docker stop\<close> and \<^verbatim>\<open>docker start\<close> with no container are never
  called; and \<open>do_snapshot\<close> of an application without containers makes no \<^verbatim>\<open>docker\<close>
  call at all. So an empty list (of an application, or the backup list) is skipped.
\<close>

theorem docker_never_called_with_empty_list:
  "list_all (targets_some (insert bcs (containers ` set aps)))
     (filter is_docker_call (calls (snapshot_manager E keep bcs url aps w)))
   \<and> Ran (docker_stop []) rc \<notin> set (calls (snapshot_manager E keep bcs url aps w))
   \<and> Ran (docker_start []) rc \<notin> set (calls (snapshot_manager E keep bcs url aps w))
   \<and> filter is_docker_call
       (calls (do_snapshot E \<lparr>name = n, containers = [], mounts = ms\<rparr> keep w)) = []"
proof -
  let ?C = "insert bcs (containers ` set aps)"
  let ?tr = "calls (snapshot_manager E keep bcs url aps w)"
  have all: "list_all (docker_ok ?C) ?tr"
    using docker_snapshot_manager by (rule emitsD)
  then have 1: "list_all (targets_some ?C) (filter is_docker_call ?tr)"
    unfolding docker_ok_def by (rule list_all_filter_if)
  have 2: "Ran (docker_stop []) rc \<notin> set ?tr"
  proof
    assume "Ran (docker_stop []) rc \<in> set ?tr"
    with all have "docker_ok ?C (Ran (docker_stop []) rc)"
      by (simp add: list_all_iff)
    then show False
      by (auto simp: docker_ok_def is_docker_call_docker targets_some_def docker_stop_inj
          docker_stop_not_start)
  qed
  have 3: "Ran (docker_start []) rc \<notin> set ?tr"
  proof
    assume "Ran (docker_start []) rc \<in> set ?tr"
    with all have "docker_ok ?C (Ran (docker_start []) rc)"
      by (simp add: list_all_iff)
    then show False
      by (auto simp: docker_ok_def is_docker_call_docker targets_some_def docker_start_inj
          docker_stop_not_start)
  qed
  let ?a = "\<lparr>name = n, containers = [], mounts = ms\<rparr>"
  have "emits (docker_ok {}) (do_snapshot E ?a keep)"
    unfolding do_snapshot_def
    by (intro emits_and_then emits_if_cond emits_skip docker_archive docker_snapshot_mounts)
      simp_all
  then have "list_all (docker_ok {}) (calls (do_snapshot E ?a keep w))"
    by (rule emitsD)
  then have "list_all (targets_some {}) (filter is_docker_call (calls (do_snapshot E ?a keep w)))"
    unfolding docker_ok_def by (rule list_all_filter_if)
  then have 4: "filter is_docker_call (calls (do_snapshot E ?a keep w)) = []"
    by (cases "filter is_docker_call (calls (do_snapshot E ?a keep w))")
      (simp_all add: targets_some_def)
  from 1 2 3 4 show ?thesis by simp
qed

section \<open>A failing container stop ends the run\<close>

lemma and_then_Inr:
  "p w = (Inr u, w1, evs) \<Longrightarrow>
   and_then p q w = (case q w1 of (r, w2, evs2) \<Rightarrow> (r, w2, evs @ evs2))"
  by (simp add: and_then_def)

lemma and_then_Inl: "p w = (Inl e, w1, evs) \<Longrightarrow> and_then p q w = (Inl e, w1, evs)"
  by (simp add: and_then_def)

lemma for_each_Cons: "for_each body (x # xs) = and_then (body x) (for_each body xs)"
  by (rule ext) (simp add: and_then_def)

lemma for_each_append:
  "for_each body (xs @ ys) = and_then (for_each body xs) (for_each body ys)"
proof
  fix w
  show "for_each body (xs @ ys) w = and_then (for_each body xs) (for_each body ys) w"
  proof (induction xs arbitrary: w)
    case Nil
    show ?case by (simp add: and_then_def)
  next
    case (Cons x xs)
    show ?case
      using Cons.IH by (auto simp: and_then_def split: prod.splits sum.splits)
  qed
qed

lemma archive_creates_nothing:
  "emits (\<lambda>ev. \<not> is_create_call ev) (archive_snapshots E a keep)"
  unfolding archive_snapshots_def archive_mount_def remove_mount_last_snapshot_def
    rename_mount_snapshots_def rename_mount_snapshot_def rename_mount_latest_snapshot_def
  by (intro emits_intros)
    (simp_all add: is_create_call_def zfs_list_def zfs_destroy_def zfs_rename_def)

lemma stop_containers_fails:
  "subprocess_run E (docker_stop (containers a)) w = (rc, w') \<Longrightarrow> rc \<noteq> 0 \<Longrightarrow>
   stop_containers E a w =
     (Inl (RuntimeError (''Failed to stop '' @ name a @ '' container(s)'')), w',
      [Ran (docker_stop (containers a)) rc])"
  by (simp add: stop_containers_def call_def raise_def)

lemma do_snapshot_stop_fails:
  assumes "archive_snapshots E a keep w = (Inr (), w1, evs)"
    and "containers a \<noteq> []"
    and "subprocess_run E (docker_stop (containers a)) w1 = (rc, w2)"
    and "rc \<noteq> 0"
  shows "do_snapshot E a keep w =
     (Inl (RuntimeError (''Failed to stop '' @ name a @ '' container(s)'')), w2,
      evs @ [Ran (docker_stop (containers a)) rc])"
  using assms stop_containers_fails [OF assms(3) assms(4)]
  by (simp add: do_snapshot_def and_then_def)

text \<open>
  Claim C8. Take a run whose start notification did not raise, whose earlier
  applications were snapshotted, and whose application \<open>a\<close> has containers and was
  archived. If \<^verbatim>\<open>docker stop\<close> for \<open>a\<close> then returns a non-zero code, the run raises the
  error of \<open>stop_containers\<close>, the world is the one that command left, and the failed
  stop is the last call of the run: no snapshot of \<open>a\<close> is created (the calls made for
  \<open>a\<close> before it contain no create call), and no later application and no later phase
  (backup group stop, remount, backup group start, prune, finish notification) runs.
\<close>

theorem stop_failure_aborts_run:
  assumes "(case url of None \<Rightarrow> skip | Some u \<Rightarrow> send_notification E u ''up'' ''start'') w0
             = (Inr (), w1, evs0)"
    and "for_each (\<lambda>a. do_snapshot E a keep) earlier w1 = (Inr (), w2, evs1)"
    and "archive_snapshots E a keep w2 = (Inr (), w3, evs2)"
    and "containers a \<noteq> []"
    and "subprocess_run E (docker_stop (containers a)) w3 = (rc, w4)"
    and "rc \<noteq> 0"
  shows "snapshot_manager E keep bcs url (earlier @ a # later) w0 =
           (Inl (RuntimeError (''Failed to stop '' @ name a @ '' container(s)'')), w4,
            evs0 @ evs1 @ evs2 @ [Ran (docker_stop (containers a)) rc])
         \<and> filter is_create_call evs2 = []"
proof -
  let ?err = "RuntimeError (''Failed to stop '' @ name a @ '' container(s)'')"
  let ?stop = "Ran (docker_stop (containers a)) rc"
  have a: "do_snapshot E a keep w2 = (Inl ?err, w4, evs2 @ [?stop])"
    using assms(3-6) by (rule do_snapshot_stop_fails)
  have "for_each (\<lambda>a. do_snapshot E a keep) (a # later) w2 = (Inl ?err, w4, evs2 @ [?stop])"
    by (simp add: a)
  then have "for_each (\<lambda>a. do_snapshot E a keep) (earlier @ a # later) w1
      = (Inl ?err, w4, evs1 @ evs2 @ [?stop])"
    by (simp add: for_each_append and_then_def assms(2))
  then have run: "snapshot_manager E keep bcs url (earlier @ a # later) w0
      = (Inl ?err, w4, evs0 @ evs1 @ evs2 @ [?stop])"
    unfolding snapshot_manager_def
    by (simp add: and_then_def assms(1))
  have "list_all (\<lambda>ev. \<not> is_create_call ev) (calls (archive_snapshots E a keep w2))"
    using archive_creates_nothing by (rule emitsD)
  then have "list_all (\<lambda>ev. \<not> is_create_call ev) evs2"
    by (simp add: assms(3) calls_def)
  then have "filter is_create_call evs2 = []"
    by (induction evs2) auto
  with run show ?thesis by simp
qed


theorem stop_failure_aborts_run_witness:
  "snapshot_manager (zfs_env stop_fails NoFile) 2 [''rsync''] (Some ''http://kuma'')
     ([blog] @ web_app # [blog]) empty_world =
     (Inl (RuntimeError (''Failed to stop '' @ name web_app @ '' container(s)'')),
      \<lparr>snapshots = {''tank/blog@backup''}, history = [{''tank/blog@backup''}]\<rparr>,
      [Got ''http://kuma'' [(''status'', ''up''), (''msg'', ''start'')] (JsonBody (Some True))]
      @ [Ran (zfs_list ''tank/blog@backup-2'') 1, Ran (zfs_list ''tank/blog@backup-1'') 1,
         Ran (zfs_list ''tank/blog@backup'') 1, Ran (zfs_snapshot ''tank/blog@backup'') 0]
      @ [Ran (zfs_list ''tank/web@backup-2'') 1, Ran (zfs_list ''tank/web@backup-1'') 1,
         Ran (zfs_list ''tank/web@backup'') 1]
      @ [Ran (docker_stop (containers web_app)) 1])
   \<and> filter is_create_call
        [Ran (zfs_list ''tank/web@backup-2'') 1, Ran (zfs_list ''tank/web@backup-1'') 1,
         Ran (zfs_list ''tank/web@backup'') 1] = []"
proof -
  let ?E = "zfs_env stop_fails NoFile"
  let ?w = "\<lparr>snapshots = {''tank/blog@backup''}, history = [{''tank/blog@backup''}]\<rparr>"
  have h1: "(case Some ''http://kuma'' of None \<Rightarrow> skip
             | Some u \<Rightarrow> send_notification ?E u ''up'' ''start'') empty_world
      = (Inr (), empty_world,
         [Got ''http://kuma'' [(''status'', ''up''), (''msg'', ''start'')] (JsonBody (Some True))])"
    by code_simp
  have h2: "for_each (\<lambda>a. do_snapshot ?E a 2) [blog] empty_world
      = (Inr (), ?w,
         [Ran (zfs_list ''tank/blog@backup-2'') 1, Ran (zfs_list ''tank/blog@backup-1'') 1,
          Ran (zfs_list ''tank/blog@backup'') 1, Ran (zfs_snapshot ''tank/blog@backup'') 0])"
    by code_simp
  have h3: "archive_snapshots ?E web_app 2 ?w
      = (Inr (), ?w,
         [Ran (zfs_list ''tank/web@backup-2'') 1, Ran (zfs_list ''tank/web@backup-1'') 1,
          Ran (zfs_list ''tank/web@backup'') 1])"
    by code_simp
  have h4: "containers web_app \<noteq> []"
    by code_simp
  have h5: "subprocess_run ?E (docker_stop (containers web_app)) ?w = (1, ?w)"
    by code_simp
  have h6: "(1::int) \<noteq> 0"
    by simp
  show ?thesis
    by (rule stop_failure_aborts_run [OF h1 h2 h3 h4 h5 h6])
qed

section \<open>Republishing a mount\<close>

lemma call_ok:
  assumes "call E argv k w = (Inr (), w', evs)"
  shows "\<exists>w1 evs1. subprocess_run E argv w = (fst (subprocess_run E argv w), w1)
           \<and> k (fst (subprocess_run E argv w)) w1 = (Inr (), w', evs1)
           \<and> evs = Ran argv (fst (subprocess_run E argv w)) # evs1"
  using assms by (auto simp: call_def split: prod.splits)

lemma and_then_ok:
  assumes "and_then p q w = (Inr (), w', evs)"
  shows "\<exists>w1 e1 e2. p w = (Inr (), w1, e1) \<and> q w1 = (Inr (), w', e2) \<and> evs = e1 @ e2"
  using assms by (auto simp: and_then_def split: prod.splits sum.splits)

lemma checked_ok:
  assumes "(if rc \<noteq> 0 then raise e else skip) w = (Inr (), w', evs)"
  shows "rc = 0 \<and> w' = w \<and> evs = []"
  using assms by (auto simp: raise_def skip_def split: if_splits)

lemma checked_call_ok:
  assumes "call E argv (\<lambda>rc. if rc \<noteq> 0 then raise e else skip) w = (Inr (), w', evs)"
  shows "evs = [Ran argv 0]"
  using assms by (auto simp: call_def raise_def skip_def split: prod.splits if_splits)

lemma for_each_Cons_ok:
  assumes "for_each body (x # xs) w = (Inr (), w', evs)"
  shows "\<exists>w1 e1 e2. body x w = (Inr (), w1, e1) \<and> for_each body xs w1 = (Inr (), w', e2)
           \<and> evs = e1 @ e2"
  using assms by (auto split: prod.splits sum.splits)

lemma guarded_call_ok:
  assumes "call E chk (\<lambda>rc. if rc = 0 then call E act (\<lambda>rc. if rc \<noteq> 0 then raise e else skip)
             else skip) w = (Inr (), w', evs)"
  shows "\<exists>rc. evs = Ran chk rc # (if rc = 0 then [Ran act 0] else [])"
  using assms by (auto simp: call_def raise_def skip_def split: prod.splits if_splits)

lemma guarded_loop_ok:
  assumes "for_each (\<lambda>x. call E (chk x) (\<lambda>rc.
             if rc = 0 then call E (act x) (\<lambda>rc. if rc \<noteq> 0 then raise (err x) else skip)
             else skip)) xs w = (Inr (), w', evs)"
  shows "\<exists>rcs. length rcs = length xs
           \<and> evs = concat (map (\<lambda>(x, rc). Ran (chk x) rc # (if rc = 0 then [Ran (act x) 0] else []))
                      (zip xs rcs))"
  using assms
proof (induction xs arbitrary: w evs)
  case Nil
  then show ?case by simp
next
  case (Cons x xs)
  from for_each_Cons_ok [OF Cons.prems] obtain w1 e1 e2 where
    b: "call E (chk x) (\<lambda>rc.
             if rc = 0 then call E (act x) (\<lambda>rc. if rc \<noteq> 0 then raise (err x) else skip)
             else skip) w = (Inr (), w1, e1)"
    and r: "for_each (\<lambda>x. call E (chk x) (\<lambda>rc.
             if rc = 0 then call E (act x) (\<lambda>rc. if rc \<noteq> 0 then raise (err x) else skip)
             else skip)) xs w1 = (Inr (), w', e2)"
    and e: "evs = e1 @ e2"
    by blast
  from guarded_call_ok [OF b] obtain rc where
    e1: "e1 = Ran (chk x) rc # (if rc = 0 then [Ran (act x) 0] else [])" by blast
  from Cons.IH [OF r] obtain rcs where
    l: "length rcs = length xs"
    and e2: "e2 = concat (map (\<lambda>(x, rc). Ran (chk x) rc # (if rc = 0 then [Ran (act x) 0] else []))
                      (zip xs rcs))"
    by blast
  have "length (rc # rcs) = length (x # xs)" using l by simp
  moreover have "evs = concat (map (\<lambda>(x, rc). Ran (chk x) rc # (if rc = 0 then [Ran (act x) 0] else []))
                      (zip (x # xs) (rc # rcs)))"
    using e e1 e2 by simp
  ultimately show ?case by blast
qed

lemma checked_loop_ok:
  assumes "for_each (\<lambda>x. call E (act x) (\<lambda>rc. if rc \<noteq> 0 then raise (err x) else skip)) xs w
             = (Inr (), w', evs)"
  shows "evs = map (\<lambda>x. Ran (act x) 0) xs"
  using assms
proof (induction xs arbitrary: w evs)
  case Nil
  then show ?case by simp
next
  case (Cons x xs)
  from for_each_Cons_ok [OF Cons.prems] obtain w1 e1 e2 where
    b: "call E (act x) (\<lambda>rc. if rc \<noteq> 0 then raise (err x) else skip) w = (Inr (), w1, e1)"
    and r: "for_each (\<lambda>x. call E (act x) (\<lambda>rc. if rc \<noteq> 0 then raise (err x) else skip)) xs w1
              = (Inr (), w', e2)"
    and e: "evs = e1 @ e2"
    by blast
  show ?case
    using checked_call_ok [OF b] Cons.IH [OF r] e by simp
qed

lemma unmount_mount_ok:
  assumes "unmount_mount E m n w = (Inr (), w', evs)"
  shows "\<exists>rcs. length rcs = length (children m)
     \<and> evs = Ran [''mountpoint'', ''-q'', destination m]
               (fst (subprocess_run E [''mountpoint'', ''-q'', destination m] w))
         # (if fst (subprocess_run E [''mountpoint'', ''-q'', destination m] w) = 0 then
              concat (map (child_unmount_calls m) (zip (children m) rcs))
              @ [Ran [''umount'', destination m] 0]
            else [])"
proof -
  let ?rc = "fst (subprocess_run E [''mountpoint'', ''-q'', destination m] w)"
  from call_ok [OF assms [unfolded unmount_mount_def]] obtain w1 evs1 where
    k: "(if ?rc = 0 then
         and_then
           (for_each (\<lambda>child.
              call E (mountpoint_q (child_path m child)) (\<lambda>rc.
                if rc = 0 then
                  call E (umount (child_path m child)) (\<lambda>rc.
                    if rc \<noteq> 0 then
                      raise (RuntimeError (''Failed to unmount '' @ n @ '' ''
                        @ child_path m child @ '' snapshot''))
                    else skip)
                else skip))
              (children m))
           (call E (umount (destination m)) (\<lambda>rc.
              if rc \<noteq> 0 then
                raise (RuntimeError (''Failed to unmount '' @ n @ '' ''
                  @ destination m @ '' snapshot''))
              else skip))
       else skip) w1 = (Inr (), w', evs1)"
    and e: "evs = Ran [''mountpoint'', ''-q'', destination m] ?rc # evs1"
    unfolding mountpoint_q_def by blast
  show ?thesis
  proof (cases "?rc = 0")
    case False
    with k have "evs1 = []" by (simp add: skip_def)
    with e False show ?thesis by (auto intro: exI [of _ "replicate (length (children m)) 0"])
  next
    case True
    from True k have k': "and_then
           (for_each (\<lambda>child.
              call E (mountpoint_q (child_path m child)) (\<lambda>rc.
                if rc = 0 then
                  call E (umount (child_path m child)) (\<lambda>rc.
                    if rc \<noteq> 0 then
                      raise (RuntimeError (''Failed to unmount '' @ n @ '' ''
                        @ child_path m child @ '' snapshot''))
                    else skip)
                else skip))
              (children m))
           (call E (umount (destination m)) (\<lambda>rc.
              if rc \<noteq> 0 then
                raise (RuntimeError (''Failed to unmount '' @ n @ '' ''
                  @ destination m @ '' snapshot''))
              else skip)) w1 = (Inr (), w', evs1)"
      by simp
    from and_then_ok [OF k'] obtain w2 e1 e2 where
      l: "for_each (\<lambda>child.
              call E (mountpoint_q (child_path m child)) (\<lambda>rc.
                if rc = 0 then
                  call E (umount (child_path m child)) (\<lambda>rc.
                    if rc \<noteq> 0 then
                      raise (RuntimeError (''Failed to unmount '' @ n @ '' ''
                        @ child_path m child @ '' snapshot''))
                    else skip)
                else skip))
              (children m) w1 = (Inr (), w2, e1)"
      and u: "call E (umount (destination m)) (\<lambda>rc.
              if rc \<noteq> 0 then
                raise (RuntimeError (''Failed to unmount '' @ n @ '' ''
                  @ destination m @ '' snapshot''))
              else skip) w2 = (Inr (), w', e2)"
      and e': "evs1 = e1 @ e2"
      by blast
    from guarded_loop_ok [OF l] obtain rcs where
      len: "length rcs = length (children m)"
      and e1: "e1 = concat (map (\<lambda>(x, rc). Ran (mountpoint_q (child_path m x)) rc
                 # (if rc = 0 then [Ran (umount (child_path m x)) 0] else []))
                      (zip (children m) rcs))"
      by blast
    have e1': "e1 = concat (map (child_unmount_calls m) (zip (children m) rcs))"
      unfolding e1 child_unmount_calls_def mountpoint_q_def umount_def child_path_def ..
    have e2: "e2 = [Ran [''umount'', destination m] 0]"
      using checked_call_ok [OF u] by (simp add: umount_def)
    show ?thesis
      using True e e' e1' e2 len by auto
  qed
qed

lemma mount_mount_ok:
  assumes "mount_mount E m n w = (Inr (), w', evs)"
  shows "evs = [Ran [''mkdir'', ''-p'', destination m] 0,
        Ran [''mount'', ''-t'', ''zfs'', origin m @ ''@backup'', destination m] 0]
     @ map (\<lambda>child.
         Ran [''mount'', ''-t'', ''zfs'', origin m @ ''/'' @ child @ ''@backup'',
              destination m @ ''/'' @ child] 0)
         (children m)"
proof -
  from call_ok [OF assms [unfolded mount_mount_def]] obtain w1 evs1 where
    k1: "(if fst (subprocess_run E (mkdir_p (destination m)) w) \<noteq> 0 then
         raise (RuntimeError (''Failed to create '' @ n @ '' '' @ destination m
           @ '' top-level directory''))
       else
         call E (mount_zfs (snapshot_latest m) (destination m)) (\<lambda>rc.
           if rc \<noteq> 0 then
             raise (RuntimeError (''Failed to mount '' @ n @ '' snapshot ''
               @ snapshot_latest m @ '' at '' @ destination m))
           else
             for_each (\<lambda>child.
               call E (mount_zfs (child_snapshot m child) (child_path m child)) (\<lambda>rc.
                 if rc \<noteq> 0 then
                   raise (RuntimeError (''Failed to mount '' @ n @ '' snapshot ''
                     @ child_snapshot m child @ '' at '' @ child_path m child))
                 else skip))
               (children m))) w1 = (Inr (), w', evs1)"
    and e: "evs = Ran (mkdir_p (destination m)) (fst (subprocess_run E (mkdir_p (destination m)) w)) # evs1"
    by blast
  have rc1: "fst (subprocess_run E (mkdir_p (destination m)) w) = 0"
    using k1 by (auto simp: raise_def split: if_splits)
  with k1 have k1': "call E (mount_zfs (snapshot_latest m) (destination m)) (\<lambda>rc.
           if rc \<noteq> 0 then
             raise (RuntimeError (''Failed to mount '' @ n @ '' snapshot ''
               @ snapshot_latest m @ '' at '' @ destination m))
           else
             for_each (\<lambda>child.
               call E (mount_zfs (child_snapshot m child) (child_path m child)) (\<lambda>rc.
                 if rc \<noteq> 0 then
                   raise (RuntimeError (''Failed to mount '' @ n @ '' snapshot ''
                     @ child_snapshot m child @ '' at '' @ child_path m child))
                 else skip))
               (children m)) w1 = (Inr (), w', evs1)"
    by simp
  let ?rc2 = "fst (subprocess_run E (mount_zfs (snapshot_latest m) (destination m)) w1)"
  from call_ok [OF k1'] obtain w2 evs2 where
    k2: "(if ?rc2 \<noteq> 0 then
             raise (RuntimeError (''Failed to mount '' @ n @ '' snapshot ''
               @ snapshot_latest m @ '' at '' @ destination m))
           else
             for_each (\<lambda>child.
               call E (mount_zfs (child_snapshot m child) (child_path m child)) (\<lambda>rc.
                 if rc \<noteq> 0 then
                   raise (RuntimeError (''Failed to mount '' @ n @ '' snapshot ''
                     @ child_snapshot m child @ '' at '' @ child_path m child))
                 else skip))
               (children m)) w2 = (Inr (), w', evs2)"
    and e1: "evs1 = Ran (mount_zfs (snapshot_latest m) (destination m)) ?rc2 # evs2"
    by blast
  have rc2: "?rc2 = 0"
    using k2 by (auto simp: raise_def split: if_splits)
  with k2 have k2': "for_each (\<lambda>child.
               call E (mount_zfs (child_snapshot m child) (child_path m child)) (\<lambda>rc.
                 if rc \<noteq> 0 then
                   raise (RuntimeError (''Failed to mount '' @ n @ '' snapshot ''
                     @ child_snapshot m child @ '' at '' @ child_path m child))
                 else skip))
               (children m) w2 = (Inr (), w', evs2)"
    by simp
  have "evs2 = map (\<lambda>child. Ran (mount_zfs (child_snapshot m child) (child_path m child)) 0) (children m)"
    by (rule checked_loop_ok [OF k2'])
  with e e1 rc1 rc2 show ?thesis
    by (simp add: mkdir_p_def mount_zfs_def snapshot_latest_def child_snapshot_def child_path_def)
qed

lemma no_umount_unmounted:
  "rc \<noteq> 0 \<Longrightarrow> filter is_umount_call (republish_calls m rc rcs) = []"
  by (induction "children m") (auto simp: republish_calls_def is_umount_call_def filter_empty_conv)

text \<open>
  Claim C7. When republishing a mount succeeds, its calls are exactly those the
  specification prescribes, in that order: the mount-point check of the destination;
  if it answers 0, for each child in the declared order the check of
  \<^verbatim>\<open>destination/child\<close> followed by its \<^verbatim>\<open>umount\<close> when that check answers 0, and then
  \<^verbatim>\<open>umount destination\<close>; then \<^verbatim>\<open>mkdir -p destination\<close>, the mount of
  \<^verbatim>\<open>origin@backup\<close> at the destination, and the mount of each
  \<^verbatim>\<open>origin/child@backup\<close> at \<^verbatim>\<open>destination/child\<close> in the declared order. If the
  destination is a mount point it is unmounted; if it is not, no \<^verbatim>\<open>umount\<close> is called
  at all.
\<close>

theorem republish_call_order:
  assumes "do_mount E \<lparr>name = n, containers = cs, mounts = [m]\<rparr> w = (Inr (), w', evs)"
  shows "(\<exists>rcs. length rcs = length (children m)
            \<and> evs = republish_calls m
                      (fst (subprocess_run E [''mountpoint'', ''-q'', destination m] w)) rcs)
       \<and> (if fst (subprocess_run E [''mountpoint'', ''-q'', destination m] w) = 0
          then Ran [''umount'', destination m] 0 \<in> set evs
          else filter is_umount_call evs = [])"
proof -
  let ?rc = "fst (subprocess_run E [''mountpoint'', ''-q'', destination m] w)"
  from assms have "for_each (\<lambda>m. and_then (unmount_mount E m n) (mount_mount E m n)) [m] w
      = (Inr (), w', evs)"
    by (simp add: do_mount_def)
  from for_each_Cons_ok [OF this] obtain w0 e0 e0' where
    "and_then (unmount_mount E m n) (mount_mount E m n) w = (Inr (), w0, e0)"
    and "for_each (\<lambda>m. and_then (unmount_mount E m n) (mount_mount E m n)) [] w0
      = (Inr (), w', e0')"
    and "evs = e0 @ e0'"
    by blast
  then have "and_then (unmount_mount E m n) (mount_mount E m n) w = (Inr (), w', evs)"
    by simp
  from and_then_ok [OF this] obtain w1 e1 e2 where
    u: "unmount_mount E m n w = (Inr (), w1, e1)"
    and mm: "mount_mount E m n w1 = (Inr (), w', e2)"
    and e: "evs = e1 @ e2"
    by blast
  from unmount_mount_ok [OF u] obtain rcs where
    len: "length rcs = length (children m)"
    and e1: "e1 = Ran [''mountpoint'', ''-q'', destination m] ?rc
         # (if ?rc = 0 then
              concat (map (child_unmount_calls m) (zip (children m) rcs))
              @ [Ran [''umount'', destination m] 0]
            else [])"
    by blast
  have evs: "evs = republish_calls m ?rc rcs"
    unfolding e e1 mount_mount_ok [OF mm] republish_calls_def by simp
  have "if ?rc = 0 then Ran [''umount'', destination m] 0 \<in> set evs
        else filter is_umount_call evs = []"
  proof (cases "?rc = 0")
    case True
    then show ?thesis unfolding evs by (simp add: republish_calls_def)
  next
    case False
    then show ?thesis unfolding evs by (simp add: no_umount_unmounted)
  qed
  with len evs show ?thesis by blast
qed

theorem republish_call_order_witness:
  "((\<exists>rcs. length rcs = length (children web_mount)
       \<and> [Ran [''mountpoint'', ''-q'', ''/mnt/web''] 0,
          Ran [''mountpoint'', ''-q'', ''/mnt/web/db''] 1,
          Ran [''mountpoint'', ''-q'', ''/mnt/web/cache''] 0,
          Ran [''umount'', ''/mnt/web/cache''] 0,
          Ran [''umount'', ''/mnt/web''] 0,
          Ran [''mkdir'', ''-p'', ''/mnt/web''] 0,
          Ran [''mount'', ''-t'', ''zfs'', ''tank/web@backup'', ''/mnt/web''] 0,
          Ran [''mount'', ''-t'', ''zfs'', ''tank/web/db@backup'', ''/mnt/web/db''] 0,
          Ran [''mount'', ''-t'', ''zfs'', ''tank/web/cache@backup'', ''/mnt/web/cache''] 0]
         = republish_calls web_mount 0 rcs)
    \<and> Ran [''umount'', ''/mnt/web''] 0 \<in> set
         [Ran [''mountpoint'', ''-q'', ''/mnt/web''] 0,
          Ran [''mountpoint'', ''-q'', ''/mnt/web/db''] 1,
          Ran [''mountpoint'', ''-q'', ''/mnt/web/cache''] 0,
          Ran [''umount'', ''/mnt/web/cache''] 0,
          Ran [''umount'', ''/mnt/web''] 0,
          Ran [''mkdir'', ''-p'', ''/mnt/web''] 0,
          Ran [''mount'', ''-t'', ''zfs'', ''tank/web@backup'', ''/mnt/web''] 0,
          Ran [''mount'', ''-t'', ''zfs'', ''tank/web/db@backup'', ''/mnt/web/db''] 0,
          Ran [''mount'', ''-t'', ''zfs'', ''tank/web/cache@backup'', ''/mnt/web/cache''] 0])
   \<and> ((\<exists>rcs. length rcs = length (children web_mount)
       \<and> [Ran [''mountpoint'', ''-q'', ''/mnt/web''] 1,
          Ran [''mkdir'', ''-p'', ''/mnt/web''] 0,
          Ran [''mount'', ''-t'', ''zfs'', ''tank/web@backup'', ''/mnt/web''] 0,
          Ran [''mount'', ''-t'', ''zfs'', ''tank/web/db@backup'', ''/mnt/web/db''] 0,
          Ran [''mount'', ''-t'', ''zfs'', ''tank/web/cache@backup'', ''/mnt/web/cache''] 0]
         = republish_calls web_mount 1 rcs)
    \<and> filter is_umount_call
         [Ran [''mountpoint'', ''-q'', ''/mnt/web''] 1,
          Ran [''mkdir'', ''-p'', ''/mnt/web''] 0,
          Ran [''mount'', ''-t'', ''zfs'', ''tank/web@backup'', ''/mnt/web''] 0,
          Ran [''mount'', ''-t'', ''zfs'', ''tank/web/db@backup'', ''/mnt/web/db''] 0,
          Ran [''mount'', ''-t'', ''zfs'', ''tank/web/cache@backup'', ''/mnt/web/cache''] 0]
        = [])"
proof -
  have h1: "do_mount (zfs_env db_not_mounted NoFile)
      \<lparr>name = ''web'', containers = [], mounts = [web_mount]\<rparr> empty_world =
      (Inr (), empty_world,
         [Ran [''mountpoint'', ''-q'', ''/mnt/web''] 0,
          Ran [''mountpoint'', ''-q'', ''/mnt/web/db''] 1,
          Ran [''mountpoint'', ''-q'', ''/mnt/web/cache''] 0,
          Ran [''umount'', ''/mnt/web/cache''] 0,
          Ran [''umount'', ''/mnt/web''] 0,
          Ran [''mkdir'', ''-p'', ''/mnt/web''] 0,
          Ran [''mount'', ''-t'', ''zfs'', ''tank/web@backup'', ''/mnt/web''] 0,
          Ran [''mount'', ''-t'', ''zfs'', ''tank/web/db@backup'', ''/mnt/web/db''] 0,
          Ran [''mount'', ''-t'', ''zfs'', ''tank/web/cache@backup'', ''/mnt/web/cache''] 0])"
    by code_simp
  have h2: "do_mount (zfs_env nothing_mounted NoFile)
      \<lparr>name = ''web'', containers = [], mounts = [web_mount]\<rparr> empty_world =
      (Inr (), empty_world,
         [Ran [''mountpoint'', ''-q'', ''/mnt/web''] 1,
          Ran [''mkdir'', ''-p'', ''/mnt/web''] 0,
          Ran [''mount'', ''-t'', ''zfs'', ''tank/web@backup'', ''/mnt/web''] 0,
          Ran [''mount'', ''-t'', ''zfs'', ''tank/web/db@backup'', ''/mnt/web/db''] 0,
          Ran [''mount'', ''-t'', ''zfs'', ''tank/web/cache@backup'', ''/mnt/web/cache''] 0])"
    by code_simp
  have r1: "fst (subprocess_run (zfs_env db_not_mounted NoFile)
      [''mountpoint'', ''-q'', destination web_mount] empty_world) = 0"
    by code_simp
  have r2: "fst (subprocess_run (zfs_env nothing_mounted NoFile)
      [''mountpoint'', ''-q'', destination web_mount] empty_world) = 1"
    by code_simp
  have d: "destination web_mount = ''/mnt/web''"
    by code_simp
  show ?thesis
    using republish_call_order [OF h1, unfolded r1] republish_call_order [OF h2, unfolded r2]
    by (simp add: d)
qed

section \<open>Run-time overrides\<close>

lemma read_config_override:
  "read_config (zfs_env never_fails (Parsed retention_five_file)) ''config.toml''
     (arg_retention retention_three_args) (arg_backup_containers retention_three_args)
     (arg_monitor_url retention_three_args)
   = Inr \<lparr>retention = 3, backup_containers = [], monitor_url = None, apps = [blog]\<rparr>"
  by code_simp

lemma main_destroys_generation_five:
  "filter is_destroy_call
     (calls (main (zfs_env never_fails (Parsed retention_five_file)) retention_three_args
        two_generations))
   = [Ran [''zfs'', ''destroy'', ''-r'', ''tank/blog@backup-5''] 0]"
  by code_simp

lemma main_keeps_generation_four:
  "snapshots (world_after (main (zfs_env never_fails (Parsed retention_five_file))
     retention_three_args two_generations))
   = {''tank/blog@backup'', ''tank/blog@backup-4''}"
  by code_simp

lemma cycle_with_retention_three:
  "snapshots (world_after (snapshot_manager (zfs_env never_fails (Parsed retention_five_file))
     3 [] None [blog] two_generations))
   = {''tank/blog@backup'', ''tank/blog@backup-5''}"
  by code_simp

text \<open>
  Claim C4. \<^verbatim>\<open>read_config\<close> implements the precedence (override, then file, then
  default), but \<^verbatim>\<open>snapshot_manager_main\<close> calls it with the path only, so the cycle that
  \<^verbatim>\<open>main\<close> starts is the same whatever overrides the command line gives. With
  \<^verbatim>\<open>retention = 5\<close> in the file and \<^verbatim>\<open>--retention 3\<close> on the command line,
  \<^verbatim>\<open>read_config\<close> given the override answers retention 3, yet the run destroys generation
  5 and moves generation 3 to 4, where a cycle with retention 3 destroys generation 3 and
  leaves generation 5 alone.
\<close>

theorem run_ignores_overrides:
  "snapshot_manager_main E
     (a\<lparr>arg_retention := r, arg_backup_containers := b, arg_monitor_url := u\<rparr>)
   = snapshot_manager_main E a
   \<and> read_config (zfs_env never_fails (Parsed retention_five_file)) ''config.toml''
       (arg_retention retention_three_args) (arg_backup_containers retention_three_args)
       (arg_monitor_url retention_three_args)
     = Inr \<lparr>retention = 3, backup_containers = [], monitor_url = None, apps = [blog]\<rparr>
   \<and> filter is_destroy_call
       (calls (main (zfs_env never_fails (Parsed retention_five_file)) retention_three_args
          two_generations))
     = [Ran [''zfs'', ''destroy'', ''-r'', ''tank/blog@backup-5''] 0]
   \<and> snapshots (world_after (main (zfs_env never_fails (Parsed retention_five_file))
       retention_three_args two_generations))
     = {''tank/blog@backup'', ''tank/blog@backup-4''}
   \<and> snapshots (world_after (snapshot_manager
       (zfs_env never_fails (Parsed retention_five_file)) 3 [] None [blog] two_generations))
     = {''tank/blog@backup'', ''tank/blog@backup-5''}"
  using read_config_override main_destroys_generation_five main_keeps_generation_four
    cycle_with_retention_three
  by (simp add: snapshot_manager_main_def)

section \<open>Failure notification\<close>

lemma monitored_run_fails:
  "main (zfs_env stop_fails (Parsed monitored_file)) plain_args empty_world =
     (Inl (RuntimeError ''Failed to stop web container(s)''), empty_world,
      [Got ''http://kuma'' [(''status'', ''up''), (''msg'', ''start'')] (JsonBody (Some True)),
       Ran [''zfs'', ''list'', ''-r'', ''-t'', ''snapshot'', ''tank/web@backup-2''] 1,
       Ran [''zfs'', ''list'', ''-r'', ''-t'', ''snapshot'', ''tank/web@backup-1''] 1,
       Ran [''zfs'', ''list'', ''-r'', ''-t'', ''snapshot'', ''tank/web@backup''] 1,
       Ran [''docker'', ''stop'', ''db'', ''nginx''] 1])"
  by code_simp

lemma monitored_run_no_down:
  "filter is_down_notification
     (calls (main (zfs_env stop_fails (Parsed monitored_file)) plain_args empty_world)) = []"
  by code_simp

lemma override_run_down:
  "filter is_down_notification
     (calls (main (zfs_env stop_fails (Parsed monitored_file))
        (plain_args\<lparr>arg_monitor_url := Some ''http://kuma''\<rparr>) empty_world))
   = [Got ''http://kuma'' [(''status'', ''down''), (''msg'', ''exception'')]
        (JsonBody (Some True))]"
  by code_simp

text \<open>
  Claim C5. The handler of \<^verbatim>\<open>main\<close> sends the failure notification to
  \<^verbatim>\<open>args.monitor_url\<close>, the command-line option, while the start and finish
  notifications go to the monitor URL of the configuration. With the monitor declared in
  the file only and a \<^verbatim>\<open>docker stop\<close> that fails, the run sends the start notification
  to the monitor, aborts with the error and skips the remaining phases, but sends no
  failure notification. The same run with the URL also given on the command line sends
  it.
\<close>

theorem file_monitor_gets_no_failure_notification:
  "main (zfs_env stop_fails (Parsed monitored_file)) plain_args empty_world =
     (Inl (RuntimeError ''Failed to stop web container(s)''), empty_world,
      [Got ''http://kuma'' [(''status'', ''up''), (''msg'', ''start'')] (JsonBody (Some True)),
       Ran [''zfs'', ''list'', ''-r'', ''-t'', ''snapshot'', ''tank/web@backup-2''] 1,
       Ran [''zfs'', ''list'', ''-r'', ''-t'', ''snapshot'', ''tank/web@backup-1''] 1,
       Ran [''zfs'', ''list'', ''-r'', ''-t'', ''snapshot'', ''tank/web@backup''] 1,
       Ran [''docker'', ''stop'', ''db'', ''nginx''] 1])
   \<and> filter is_down_notification
       (calls (main (zfs_env stop_fails (Parsed monitored_file)) plain_args empty_world)) = []
   \<and> filter is_down_notification
       (calls (main (zfs_env stop_fails (Parsed monitored_file))
          (plain_args\<lparr>arg_monitor_url := Some ''http://kuma''\<rparr>) empty_world))
     = [Got ''http://kuma'' [(''status'', ''down''), (''msg'', ''exception'')]
          (JsonBody (Some True))]"
  using monitored_run_fails monitored_run_no_down override_run_down by simp

section \<open>Rotation under the model of the snapshot tool\<close>

lemma gen_inj [simp]: "spec_generation d i = spec_generation d j \<longleftrightarrow> i = j"
  by (auto simp: spec_generation_def dest: str_int_inj)

lemma gen_not_cur [simp]: "spec_generation d i \<noteq> spec_current d"
  "spec_current d \<noteq> spec_generation d i"
  by (simp_all add: spec_generation_def spec_current_def)

lemma shifted_0: "shifted d 0 S = S"
  by (simp add: shifted_def)

lemma shifted_Suc_in:
  assumes "0 \<le> k" "spec_generation d (k + 1) \<in> S"
  shows "shifted d k (insert (spec_generation d (k + 2)) (S - {spec_generation d (k + 1)}))
         = shifted d (k + 1) S"
proof -
  have r: "{1..k + 1} = insert (k + 1) {1..k}" using assms(1) by auto
  have "spec_generation d (k + 2) \<in> (\<lambda>x. spec_generation d (x + 1)) `
      {i. (i = k + 1 \<or> 1 \<le> i \<and> i \<le> k) \<and> spec_generation d i \<in> S}"
    using assms(2) by (intro rev_image_eqI [of "k + 1"]) simp_all
  then show ?thesis
    unfolding shifted_def r using assms(2) by auto
qed

lemma shifted_Suc_out:
  assumes "0 \<le> k" "spec_generation d (k + 1) \<notin> S"
  shows "shifted d k S = shifted d (k + 1) S"
proof -
  have r: "{1..k + 1} = insert (k + 1) {1..k}" using assms(1) by auto
  show ?thesis
    unfolding shifted_def r using assms(2) by auto
qed

lemma rotated_shifted:
  assumes "1 \<le> keep"
  shows "rotated d keep S =
     (let T = shifted d (keep - 1) (S - {spec_generation d keep})
      in if spec_current d \<in> T then insert (spec_generation d 1) (T - {spec_current d}) else T)"
proof -
  have r: "{1..keep} = insert keep {1..keep - 1}" using assms by auto
  show ?thesis
    unfolding rotated_def shifted_def Let_def r by (auto simp: image_iff)
qed

lemma run_zfs_list:
  "subprocess_run (zfs_env never_fails f) (zfs_list x) w = (if x \<in> snapshots w then 0 else 1, w)"
  by (simp add: zfs_env_def never_fails_def zfs_step_def zfs_list_def)

lemma run_zfs_destroy:
  "subprocess_run (zfs_env never_fails f) (zfs_destroy x) w =
     (if x \<in> snapshots w then (0, record_state (snapshots w - {x}) w) else (1, w))"
  by (simp add: zfs_env_def never_fails_def zfs_step_def zfs_destroy_def)

lemma run_zfs_rename:
  "subprocess_run (zfs_env never_fails f) (zfs_rename x y) w =
     (if x \<in> snapshots w \<and> y \<notin> snapshots w
      then (0, record_state (insert y (snapshots w - {x})) w) else (1, w))"
  by (simp add: zfs_env_def never_fails_def zfs_step_def zfs_rename_def)

lemma run_zfs_snapshot:
  "subprocess_run (zfs_env never_fails f) (zfs_snapshot x) w =
     (if x \<notin> snapshots w then (0, record_state (insert x (snapshots w)) w) else (1, w))"
  by (simp add: zfs_env_def never_fails_def zfs_step_def zfs_snapshot_def)

lemma snapshots_record_state [simp]: "snapshots (record_state S w) = S"
  by (simp add: record_state_def)

lemma range_down_Suc: "range_down (int n + 1) = (int n + 1) # range_down (int n)"
  by (subst range_down.simps) simp

lemma range_down_0: "range_down 0 = []"
  by (subst range_down.simps) simp

lemma aged_simps [simp]:
  "snapshot_aged m i = snapshot_aged m j \<longleftrightarrow> i = j"
  "snapshot_aged m i \<noteq> snapshot_latest m"
  "snapshot_latest m \<noteq> snapshot_aged m i"
  using aged_eq_iff [of m i m j] aged_not_latest [of m i m] by auto

lemma remove_last_zfs:
  "\<exists>w' evs. remove_mount_last_snapshot (zfs_env never_fails f) m n keep w = (Inr (), w', evs)
     \<and> snapshots w' = snapshots w - {spec_generation (origin m) keep}"
proof -
  have "\<exists>w' evs. remove_mount_last_snapshot (zfs_env never_fails f) m n keep w = (Inr (), w', evs)
     \<and> snapshots w' = snapshots w - {snapshot_aged m keep}"
    by (simp add: remove_mount_last_snapshot_def call_def run_zfs_list run_zfs_destroy skip_def)
  then show ?thesis unfolding spec_commands .
qed

lemma rename_step_zfs:
  assumes "spec_generation (origin m) (i + 1) \<notin> snapshots w"
  shows "\<exists>w' evs. rename_mount_snapshot (zfs_env never_fails f) m n i w = (Inr (), w', evs)
     \<and> snapshots w' =
         (if spec_generation (origin m) i \<in> snapshots w
          then insert (spec_generation (origin m) (i + 1))
                 (snapshots w - {spec_generation (origin m) i})
          else snapshots w)"
proof -
  from assms have "snapshot_aged m (i + 1) \<notin> snapshots w" by (simp add: spec_commands)
  then have "\<exists>w' evs. rename_mount_snapshot (zfs_env never_fails f) m n i w = (Inr (), w', evs)
     \<and> snapshots w' =
         (if snapshot_aged m i \<in> snapshots w
          then insert (snapshot_aged m (i + 1)) (snapshots w - {snapshot_aged m i})
          else snapshots w)"
    by (simp add: rename_mount_snapshot_def call_def run_zfs_list run_zfs_rename skip_def)
  then show ?thesis unfolding spec_commands .
qed

lemma rename_latest_zfs:
  assumes "spec_generation (origin m) 1 \<notin> snapshots w"
  shows "\<exists>w' evs. rename_mount_latest_snapshot (zfs_env never_fails f) m n w = (Inr (), w', evs)
     \<and> snapshots w' =
         (if spec_current (origin m) \<in> snapshots w
          then insert (spec_generation (origin m) 1) (snapshots w - {spec_current (origin m)})
          else snapshots w)"
proof -
  from assms have "snapshot_aged m 1 \<notin> snapshots w" by (simp add: spec_commands)
  then have "\<exists>w' evs. rename_mount_latest_snapshot (zfs_env never_fails f) m n w = (Inr (), w', evs)
     \<and> snapshots w' =
         (if snapshot_latest m \<in> snapshots w
          then insert (snapshot_aged m 1) (snapshots w - {snapshot_latest m})
          else snapshots w)"
    by (simp add: rename_mount_latest_snapshot_def call_def run_zfs_list run_zfs_rename skip_def)
  then show ?thesis unfolding spec_commands .
qed

lemma rename_loop_zfs:
  assumes "spec_generation (origin m) (int k + 1) \<notin> snapshots w"
  shows "\<exists>w' evs. for_each (rename_mount_snapshot (zfs_env never_fails f) m n)
                    (range_down (int k)) w = (Inr (), w', evs)
     \<and> snapshots w' = shifted (origin m) (int k) (snapshots w)"
  using assms
proof (induction k arbitrary: w)
  case 0
  show ?case by (simp add: range_down_0 shifted_0)
next
  case (Suc k)
  let ?g = "spec_generation (origin m)"
  have free: "?g (int k + 1 + 1) \<notin> snapshots w" using Suc.prems by (simp add: add.commute)
  from rename_step_zfs [OF free] obtain w1 evs1 where
    s1: "rename_mount_snapshot (zfs_env never_fails f) m n (int k + 1) w = (Inr (), w1, evs1)"
    and S1: "snapshots w1 = (if ?g (int k + 1) \<in> snapshots w
          then insert (?g (int k + 1 + 1)) (snapshots w - {?g (int k + 1)})
          else snapshots w)"
    by blast
  have "?g (int k + 1) \<notin> snapshots w1" unfolding S1 by simp
  from Suc.IH [OF this] obtain w' evs where
    l: "for_each (rename_mount_snapshot (zfs_env never_fails f) m n) (range_down (int k)) w1
        = (Inr (), w', evs)"
    and S': "snapshots w' = shifted (origin m) (int k) (snapshots w1)"
    by blast
  have "shifted (origin m) (int k) (snapshots w1) = shifted (origin m) (int k + 1) (snapshots w)"
  proof (cases "?g (int k + 1) \<in> snapshots w")
    case True
    then show ?thesis
      unfolding S1 using shifted_Suc_in [of "int k" "origin m" "snapshots w"]
      by (simp add: add.assoc)
  next
    case False
    then show ?thesis
      unfolding S1 using shifted_Suc_out [of "int k" "origin m" "snapshots w"] by simp
  qed
  with S' have "snapshots w' = shifted (origin m) (int (Suc k)) (snapshots w)"
    by (simp add: add.commute)
  moreover have "for_each (rename_mount_snapshot (zfs_env never_fails f) m n)
      (range_down (int (Suc k))) w = (Inr (), w', evs1 @ evs)"
    using s1 l range_down_Suc [of k] by (simp add: add.commute)
  ultimately show ?case by blast
qed

lemma archive_mount_zfs:
  assumes "1 \<le> keep"
  shows "\<exists>w' evs. archive_mount (zfs_env never_fails f) m n keep w = (Inr (), w', evs)
     \<and> snapshots w' = rotated (origin m) keep (snapshots w)"
proof -
  let ?E = "zfs_env never_fails f"
  let ?g = "spec_generation (origin m)"
  from remove_last_zfs obtain w1 evs1 where
    a: "remove_mount_last_snapshot ?E m n keep w = (Inr (), w1, evs1)"
    and S1: "snapshots w1 = snapshots w - {?g keep}"
    by blast
  have k: "int (nat (keep - 1)) = keep - 1" using assms by simp
  have "?g (int (nat (keep - 1)) + 1) \<notin> snapshots w1" unfolding k S1 by simp
  from rename_loop_zfs [OF this] obtain w2 evs2 where
    b: "rename_mount_snapshots ?E m n keep w1 = (Inr (), w2, evs2)"
    and S2: "snapshots w2 = shifted (origin m) (keep - 1) (snapshots w1)"
    unfolding k rename_mount_snapshots_def by blast
  have "?g 1 \<notin> snapshots w2"
    unfolding S2 S1 shifted_def using assms by auto
  from rename_latest_zfs [OF this] obtain w3 evs3 where
    c: "rename_mount_latest_snapshot ?E m n w2 = (Inr (), w3, evs3)"
    and S3: "snapshots w3 = (if spec_current (origin m) \<in> snapshots w2
          then insert (?g 1) (snapshots w2 - {spec_current (origin m)})
          else snapshots w2)"
    by blast
  have "archive_mount ?E m n keep w = (Inr (), w3, evs1 @ evs2 @ evs3)"
    using a b c by (simp add: archive_mount_def and_then_def)
  moreover have "snapshots w3 = rotated (origin m) keep (snapshots w)"
    unfolding S3 S2 S1 rotated_shifted [OF assms] Let_def ..
  ultimately show ?thesis by blast
qed

lemma no_destroy_filter:
  assumes "emits (\<lambda>ev. \<not> is_destroy_call ev) p" "p w = (r, w', evs)"
  shows "filter is_destroy_call evs = []"
proof -
  from emitsD [OF assms(1), of w] assms(2) have "list_all (\<lambda>ev. \<not> is_destroy_call ev) evs"
    by (simp add: calls_def)
  then show ?thesis by (induction evs) auto
qed

lemma rename_snapshots_no_destroy:
  "emits (\<lambda>ev. \<not> is_destroy_call ev) (rename_mount_snapshots E m n keep)"
  unfolding rename_mount_snapshots_def rename_mount_snapshot_def
  by (intro emits_intros) (simp_all add: is_destroy_call_def zfs_list_def zfs_rename_def)

lemma rename_latest_no_destroy:
  "emits (\<lambda>ev. \<not> is_destroy_call ev) (rename_mount_latest_snapshot E m n)"
  unfolding rename_mount_latest_snapshot_def
  by (intro emits_intros) (simp_all add: is_destroy_call_def zfs_list_def zfs_rename_def)

lemma is_destroy_call_simps:
  "is_destroy_call (Ran (zfs_list x) rc) = False"
  "is_destroy_call (Ran (zfs_destroy x) rc) = True"
  by (simp_all add: is_destroy_call_def zfs_list_def zfs_destroy_def)

lemma remove_last_zfs_calls:
  "\<exists>w' evs. remove_mount_last_snapshot (zfs_env never_fails f) m n keep w = (Inr (), w', evs)
     \<and> snapshots w' = snapshots w - {spec_generation (origin m) keep}
     \<and> filter is_destroy_call evs =
         (if spec_generation (origin m) keep \<in> snapshots w
          then [Ran [''zfs'', ''destroy'', ''-r'', spec_generation (origin m) keep] 0] else [])"
proof -
  have "\<exists>w' evs. remove_mount_last_snapshot (zfs_env never_fails f) m n keep w = (Inr (), w', evs)
     \<and> snapshots w' = snapshots w - {snapshot_aged m keep}
     \<and> filter is_destroy_call evs =
         (if snapshot_aged m keep \<in> snapshots w
          then [Ran (zfs_destroy (snapshot_aged m keep)) 0] else [])"
    by (simp add: remove_mount_last_snapshot_def call_def run_zfs_list run_zfs_destroy skip_def
        is_destroy_call_simps)
  then show ?thesis unfolding spec_commands spec_destroy_def .
qed

lemma archive_mount_zfs_calls:
  assumes "1 \<le> keep"
  shows "\<exists>w' evs. archive_mount (zfs_env never_fails f) m n keep w = (Inr (), w', evs)
     \<and> snapshots w' = rotated (origin m) keep (snapshots w)
     \<and> filter is_destroy_call evs =
         (if spec_generation (origin m) keep \<in> snapshots w
          then [Ran [''zfs'', ''destroy'', ''-r'', spec_generation (origin m) keep] 0] else [])"
proof -
  let ?E = "zfs_env never_fails f"
  let ?g = "spec_generation (origin m)"
  from remove_last_zfs_calls obtain w1 evs1 where
    a: "remove_mount_last_snapshot ?E m n keep w = (Inr (), w1, evs1)"
    and S1: "snapshots w1 = snapshots w - {?g keep}"
    and d1: "filter is_destroy_call evs1 =
         (if ?g keep \<in> snapshots w then [Ran [''zfs'', ''destroy'', ''-r'', ?g keep] 0] else [])"
    by blast
  have k: "int (nat (keep - 1)) = keep - 1" using assms by simp
  have "?g (int (nat (keep - 1)) + 1) \<notin> snapshots w1" unfolding k S1 by simp
  from rename_loop_zfs [OF this] obtain w2 evs2 where
    b: "rename_mount_snapshots ?E m n keep w1 = (Inr (), w2, evs2)"
    and S2: "snapshots w2 = shifted (origin m) (keep - 1) (snapshots w1)"
    unfolding k rename_mount_snapshots_def by blast
  have "?g 1 \<notin> snapshots w2"
    unfolding S2 S1 shifted_def using assms by auto
  from rename_latest_zfs [OF this] obtain w3 evs3 where
    c: "rename_mount_latest_snapshot ?E m n w2 = (Inr (), w3, evs3)"
    and S3: "snapshots w3 = (if spec_current (origin m) \<in> snapshots w2
          then insert (?g 1) (snapshots w2 - {spec_current (origin m)})
          else snapshots w2)"
    by blast
  have d2: "filter is_destroy_call evs2 = []"
    by (rule no_destroy_filter [OF rename_snapshots_no_destroy b])
  have d3: "filter is_destroy_call evs3 = []"
    by (rule no_destroy_filter [OF rename_latest_no_destroy c])
  have "archive_mount ?E m n keep w = (Inr (), w3, evs1 @ evs2 @ evs3)"
    using a b c by (simp add: archive_mount_def and_then_def)
  moreover have "snapshots w3 = rotated (origin m) keep (snapshots w)"
    unfolding S3 S2 S1 rotated_shifted [OF assms] Let_def ..
  moreover have "filter is_destroy_call (evs1 @ evs2 @ evs3) =
         (if ?g keep \<in> snapshots w then [Ran [''zfs'', ''destroy'', ''-r'', ?g keep] 0] else [])"
    using d1 d2 d3 by simp
  ultimately show ?thesis by blast
qed

lemma archive_snapshots_zfs:
  assumes "1 \<le> keep" "mounts a = [m]"
  shows "\<exists>w' evs. archive_snapshots (zfs_env never_fails f) a keep w = (Inr (), w', evs)
     \<and> snapshots w' = rotated (origin m) keep (snapshots w)
     \<and> filter is_destroy_call evs =
         (if spec_generation (origin m) keep \<in> snapshots w
          then [Ran [''zfs'', ''destroy'', ''-r'', spec_generation (origin m) keep] 0] else [])"
proof -
  from archive_mount_zfs_calls [OF assms(1), of f m "name a" w] obtain w' evs where
    "archive_mount (zfs_env never_fails f) m (name a) keep w = (Inr (), w', evs)"
    and "snapshots w' = rotated (origin m) keep (snapshots w)"
    and "filter is_destroy_call evs =
         (if spec_generation (origin m) keep \<in> snapshots w
          then [Ran [''zfs'', ''destroy'', ''-r'', spec_generation (origin m) keep] 0] else [])"
    by blast
  then show ?thesis
    by (simp add: archive_snapshots_def assms(2))
qed

section \<open>Archiving twice\<close>

text \<open>
  Claim C3 (amended). With a snapshot tool that behaves as specified, for every snapshot
  state and every retention of at least 1, invoking \<open>archive\<close> twice in a row for a
  mount raises no error, and each invocation makes of the state what the specification
  says of one rotation. Each invocation destroys exactly the snapshot found in slot
  \<open>keep\<close>, if there is one: the second invocation therefore destroys the generation
  that the first one moved into that slot, one generation more than a single invocation
  loses.
\<close>

theorem archive_twice_rotates_twice:
  assumes "1 \<le> keep" and "mounts a = [m]"
  shows "\<exists>w1 evs1 w2 evs2.
       archive_snapshots (zfs_env never_fails f) a keep w = (Inr (), w1, evs1)
     \<and> archive_snapshots (zfs_env never_fails f) a keep w1 = (Inr (), w2, evs2)
     \<and> snapshots w1 = rotated (origin m) keep (snapshots w)
     \<and> snapshots w2 = rotated (origin m) keep (rotated (origin m) keep (snapshots w))
     \<and> filter is_destroy_call evs1 =
         (if spec_generation (origin m) keep \<in> snapshots w
          then [Ran [''zfs'', ''destroy'', ''-r'', spec_generation (origin m) keep] 0] else [])
     \<and> filter is_destroy_call evs2 =
         (if spec_generation (origin m) keep \<in> rotated (origin m) keep (snapshots w)
          then [Ran [''zfs'', ''destroy'', ''-r'', spec_generation (origin m) keep] 0] else [])"
proof -
  from archive_snapshots_zfs [OF assms, of f w] obtain w1 evs1 where
    1: "archive_snapshots (zfs_env never_fails f) a keep w = (Inr (), w1, evs1)"
    "snapshots w1 = rotated (origin m) keep (snapshots w)"
    "filter is_destroy_call evs1 =
         (if spec_generation (origin m) keep \<in> snapshots w
          then [Ran [''zfs'', ''destroy'', ''-r'', spec_generation (origin m) keep] 0] else [])"
    by blast
  from archive_snapshots_zfs [OF assms, of f w1] obtain w2 evs2 where
    2: "archive_snapshots (zfs_env never_fails f) a keep w1 = (Inr (), w2, evs2)"
    "snapshots w2 = rotated (origin m) keep (snapshots w1)"
    "filter is_destroy_call evs2 =
         (if spec_generation (origin m) keep \<in> snapshots w1
          then [Ran [''zfs'', ''destroy'', ''-r'', spec_generation (origin m) keep] 0] else [])"
    by blast
  from 1 2 show ?thesis by (metis (no_types, lifting))
qed

theorem archive_twice_rotates_twice_witness:
  "\<exists>w1 evs1 w2 evs2.
       archive_snapshots (zfs_env never_fails NoFile) blog 2 three_snapshots = (Inr (), w1, evs1)
     \<and> archive_snapshots (zfs_env never_fails NoFile) blog 2 w1 = (Inr (), w2, evs2)
     \<and> snapshots w1 = {''tank/blog@backup-1'', ''tank/blog@backup-2''}
     \<and> snapshots w2 = {''tank/blog@backup-2''}
     \<and> filter is_destroy_call evs1 = [Ran [''zfs'', ''destroy'', ''-r'', ''tank/blog@backup-2''] 0]
     \<and> filter is_destroy_call evs2 = [Ran [''zfs'', ''destroy'', ''-r'', ''tank/blog@backup-2''] 0]"
proof -
  let ?m = "\<lparr>origin = ''tank/blog'', destination = ''/mnt/blog'', children = []\<rparr>"
  have h1: "(1::int) \<le> 2" by simp
  have h2: "mounts blog = [?m]" by code_simp
  have r1: "rotated (origin ?m) 2 (snapshots three_snapshots)
      = {''tank/blog@backup-1'', ''tank/blog@backup-2''}"
    by code_simp
  have r2: "rotated (origin ?m) 2 {''tank/blog@backup-1'', ''tank/blog@backup-2''}
      = {''tank/blog@backup-2''}"
    by code_simp
  have g: "spec_generation (origin ?m) 2 = ''tank/blog@backup-2''"
    by code_simp
  have m1: "''tank/blog@backup-2'' \<in> snapshots three_snapshots"
    by code_simp
  show ?thesis
    using archive_twice_rotates_twice [OF h1 h2, of NoFile three_snapshots]
    unfolding r1 r2 g using m1 by simp
qed

text \<open>
  The claim as first stated fails. With retention 2 and the single snapshot
  \<^verbatim>\<open>tank/blog@backup-1\<close>, one \<open>archive\<close> renames it to \<^verbatim>\<open>tank/blog@backup-2\<close> and
  loses nothing; a second \<open>archive\<close> right after it destroys that snapshot, so that two
  invocations leave fewer snapshots than one.
\<close>

theorem archive_twice_loses_more:
  "archive_snapshots (zfs_env never_fails NoFile) blog 2 one_generation =
     (Inr (), \<lparr>snapshots = {''tank/blog@backup-2''}, history = [{''tank/blog@backup-2''}]\<rparr>,
      [Ran [''zfs'', ''list'', ''-r'', ''-t'', ''snapshot'', ''tank/blog@backup-2''] 1,
       Ran [''zfs'', ''list'', ''-r'', ''-t'', ''snapshot'', ''tank/blog@backup-1''] 0,
       Ran [''zfs'', ''rename'', ''-r'', ''tank/blog@backup-1'', ''tank/blog@backup-2''] 0,
       Ran [''zfs'', ''list'', ''-r'', ''-t'', ''snapshot'', ''tank/blog@backup''] 1])
   \<and> and_then (archive_snapshots (zfs_env never_fails NoFile) blog 2)
       (archive_snapshots (zfs_env never_fails NoFile) blog 2) one_generation =
     (Inr (), \<lparr>snapshots = {}, history = [{''tank/blog@backup-2''}, {}]\<rparr>,
      [Ran [''zfs'', ''list'', ''-r'', ''-t'', ''snapshot'', ''tank/blog@backup-2''] 1,
       Ran [''zfs'', ''list'', ''-r'', ''-t'', ''snapshot'', ''tank/blog@backup-1''] 0,
       Ran [''zfs'', ''rename'', ''-r'', ''tank/blog@backup-1'', ''tank/blog@backup-2''] 0,
       Ran [''zfs'', ''list'', ''-r'', ''-t'', ''snapshot'', ''tank/blog@backup''] 1,
       Ran [''zfs'', ''list'', ''-r'', ''-t'', ''snapshot'', ''tank/blog@backup-2''] 0,
       Ran [''zfs'', ''destroy'', ''-r'', ''tank/blog@backup-2''] 0,
       Ran [''zfs'', ''list'', ''-r'', ''-t'', ''snapshot'', ''tank/blog@backup-1''] 1,
       Ran [''zfs'', ''list'', ''-r'', ''-t'', ''snapshot'', ''tank/blog@backup''] 1])
   \<and> card (snapshots (world_after
         (and_then (archive_snapshots (zfs_env never_fails NoFile) blog 2)
            (archive_snapshots (zfs_env never_fails NoFile) blog 2) one_generation)))
     < card (snapshots (world_after
         (archive_snapshots (zfs_env never_fails NoFile) blog 2 one_generation)))"
  by code_simp

section \<open>Whole cycles under the model of the snapshot tool\<close>

lemma runs_to_and_then:
  "runs_to p w w1 \<Longrightarrow> runs_to q w1 w2 \<Longrightarrow> runs_to (and_then p q) w w2"
  by (auto simp: runs_to_def and_then_def)

lemma runs_to_single: "runs_to (body x) w w' \<Longrightarrow> runs_to (for_each body [x]) w w'"
  by (auto simp: runs_to_def)

lemma runs_to_idle: "idle p \<Longrightarrow> runs_to p w w"
  by (simp add: idle_def)

lemma idle_skip: "idle skip"
  by (simp add: idle_def runs_to_def skip_def)

lemma idle_and_then: "idle p \<Longrightarrow> idle q \<Longrightarrow> idle (and_then p q)"
  unfolding idle_def by (blast intro: runs_to_and_then)

lemma idle_if: "idle p \<Longrightarrow> idle q \<Longrightarrow> idle (if b then p else q)"
  by simp

lemma idle_for_each: "(\<And>x. idle (body x)) \<Longrightarrow> idle (for_each body xs)"
proof (induction xs)
  case Nil
  show ?case by (simp add: idle_def runs_to_def)
next
  case (Cons x xs)
  have "idle (and_then (body x) (for_each body xs))"
    using Cons by (intro idle_and_then) simp_all
  then show ?case by (simp add: for_each_Cons)
qed

lemma idle_call:
  assumes "\<And>w. subprocess_run E argv w = (0, w)" "idle (k 0)"
  shows "idle (call E argv k)"
  unfolding idle_def runs_to_def
proof
  fix w
  from assms(2) obtain evs where "k 0 w = (Inr (), w, evs)"
    unfolding idle_def runs_to_def by blast
  then have "call E argv k w = (Inr (), w, Ran argv 0 # evs)"
    by (simp add: call_def assms(1))
  then show "\<exists>evs. call E argv k w = (Inr (), w, evs)" by blast
qed

lemma idle_call_ne:
  assumes "\<And>w. subprocess_run E argv w = (0, w)" "idle q"
  shows "idle (call E argv (\<lambda>rc. if rc \<noteq> 0 then p else q))"
  using assms by (intro idle_call) simp_all

lemma idle_call_eq:
  assumes "\<And>w. subprocess_run E argv w = (0, w)" "idle p"
  shows "idle (call E argv (\<lambda>rc. if rc = 0 then p else q))"
  using assms by (intro idle_call) simp_all

lemma idle_option:
  "idle p \<Longrightarrow> (\<And>u. idle (q u)) \<Longrightarrow> idle (case x of None \<Rightarrow> p | Some u \<Rightarrow> q u)"
  by (cases x) simp_all

lemma zfs_step_other:
  assumes "take 1 argv \<noteq> [''zfs'']"
  shows "zfs_step argv w = (0, w)"
proof -
  have "take 5 argv \<noteq> [''zfs'', ''list'', ''-r'', ''-t'', ''snapshot'']"
    "take 3 argv \<noteq> [''zfs'', ''destroy'', ''-r'']"
    "take 3 argv \<noteq> [''zfs'', ''rename'', ''-r'']"
    "take 3 argv \<noteq> [''zfs'', ''snapshot'', ''-r'']"
    using assms by (cases argv; auto)+
  then show ?thesis by (simp add: zfs_step_def)
qed

lemma run_other:
  "take 1 argv \<noteq> [''zfs''] \<Longrightarrow> subprocess_run (zfs_env never_fails f) argv w = (0, w)"
  by (simp add: zfs_env_def never_fails_def zfs_step_other)

lemma idle_send_notification: "idle (send_notification (zfs_env never_fails f) u s msg)"
  by (simp add: idle_def runs_to_def send_notification_def zfs_env_def)

lemmas idle_intros =
  idle_skip idle_and_then idle_for_each idle_call_ne idle_call_eq idle_option
  idle_send_notification

lemma idle_stop_containers: "idle (stop_containers (zfs_env never_fails f) a)"
  unfolding stop_containers_def
  by (intro idle_intros run_other) (simp_all add: docker_stop_def)

lemma idle_start_containers: "idle (start_containers (zfs_env never_fails f) a)"
  unfolding start_containers_def
  by (intro idle_intros run_other) (simp_all add: docker_start_def)

lemma idle_stop_backup: "idle (stop_backup_containers (zfs_env never_fails f) bcs)"
  unfolding stop_backup_containers_def
  by (intro idle_intros run_other) (simp_all add: docker_stop_def)

lemma idle_start_backup: "idle (start_backup_containers (zfs_env never_fails f) bcs)"
  unfolding start_backup_containers_def
  by (intro idle_intros run_other) (simp_all add: docker_start_def)

lemma idle_do_mount: "idle (do_mount (zfs_env never_fails f) a)"
  unfolding do_mount_def unmount_mount_def mount_mount_def
  by (intro idle_intros run_other)
    (simp_all add: mountpoint_q_def umount_def mkdir_p_def mount_zfs_def)

lemma current_not_rotated: "spec_current d \<notin> rotated d keep S"
  by (auto simp: rotated_def)

lemma snapshot_mounts_zfs:
  assumes "mounts a = [m]" "spec_current (origin m) \<notin> snapshots w"
  shows "\<exists>w'. runs_to (snapshot_mounts (zfs_env never_fails f) a) w w'
     \<and> snapshots w' = insert (spec_current (origin m)) (snapshots w)"
proof -
  from assms(2) have "snapshot_latest m \<notin> snapshots w" by (simp add: spec_commands)
  then have "\<exists>w'. runs_to (snapshot_mounts (zfs_env never_fails f) a) w w'
     \<and> snapshots w' = insert (snapshot_latest m) (snapshots w)"
    by (simp add: snapshot_mounts_def assms(1) runs_to_def call_def run_zfs_snapshot skip_def)
  then show ?thesis unfolding spec_commands .
qed

lemma remove_last_snapshot_zfs:
  assumes "mounts a = [m]"
  shows "\<exists>w'. runs_to (remove_last_snapshot (zfs_env never_fails f) a keep) w w'
     \<and> snapshots w' = snapshots w - {spec_generation (origin m) keep}"
proof -
  from remove_last_zfs [of f m "name a" keep w] obtain w' evs where
    "remove_mount_last_snapshot (zfs_env never_fails f) m (name a) keep w = (Inr (), w', evs)"
    "snapshots w' = snapshots w - {spec_generation (origin m) keep}"
    by blast
  then show ?thesis
    by (auto simp: remove_last_snapshot_def assms runs_to_def)
qed

lemma do_snapshot_zfs:
  assumes "1 \<le> keep" "mounts a = [m]"
  shows "\<exists>w'. runs_to (do_snapshot (zfs_env never_fails f) a keep) w w'
     \<and> snapshots w' = insert (spec_current (origin m)) (rotated (origin m) keep (snapshots w))"
proof -
  let ?E = "zfs_env never_fails f"
  from archive_snapshots_zfs [OF assms, of f w] obtain w1 where
    1: "runs_to (archive_snapshots ?E a keep) w w1"
    and S1: "snapshots w1 = rotated (origin m) keep (snapshots w)"
    unfolding runs_to_def by blast
  have 2: "runs_to (if containers a \<noteq> [] then stop_containers ?E a else skip) w1 w1"
    by (intro runs_to_idle) (simp add: idle_stop_containers idle_skip)
  have "spec_current (origin m) \<notin> snapshots w1"
    unfolding S1 by (rule current_not_rotated)
  from snapshot_mounts_zfs [OF assms(2) this] obtain w2 where
    3: "runs_to (snapshot_mounts ?E a) w1 w2"
    and S2: "snapshots w2 = insert (spec_current (origin m)) (snapshots w1)"
    by blast
  have 4: "runs_to (if containers a \<noteq> [] then start_containers ?E a else skip) w2 w2"
    by (intro runs_to_idle) (simp add: idle_start_containers idle_skip)
  have "runs_to (do_snapshot ?E a keep) w w2"
    unfolding do_snapshot_def
    by (rule runs_to_and_then [OF 1 runs_to_and_then [OF 2 runs_to_and_then [OF 3 4]]])
  with S1 S2 show ?thesis by auto
qed

lemma snapshot_manager_zfs:
  assumes "1 \<le> keep" "mounts a = [m]"
  shows "\<exists>w'. runs_to (snapshot_manager (zfs_env never_fails f) keep bcs url [a]) w w'
     \<and> snapshots w' = cycle_state (origin m) keep (snapshots w)"
proof -
  let ?E = "zfs_env never_fails f"
  have 1: "runs_to (case url of None \<Rightarrow> skip | Some u \<Rightarrow> send_notification ?E u ''up'' ''start'')
      w w"
    by (intro runs_to_idle idle_intros)
  from do_snapshot_zfs [OF assms, of f w] obtain w1 where
    "runs_to (do_snapshot ?E a keep) w w1"
    and S1: "snapshots w1 = insert (spec_current (origin m)) (rotated (origin m) keep (snapshots w))"
    by blast
  then have 2: "runs_to (for_each (\<lambda>a. do_snapshot ?E a keep) [a]) w w1"
    by (intro runs_to_single)
  have 3: "runs_to (if bcs \<noteq> [] then stop_backup_containers ?E bcs else skip) w1 w1"
    by (intro runs_to_idle) (simp add: idle_stop_backup idle_skip)
  have 4: "runs_to (for_each (do_mount ?E) [a]) w1 w1"
    by (intro runs_to_idle idle_for_each idle_do_mount)
  have 5: "runs_to (if bcs \<noteq> [] then start_backup_containers ?E bcs else skip) w1 w1"
    by (intro runs_to_idle) (simp add: idle_start_backup idle_skip)
  from remove_last_snapshot_zfs [OF assms(2), of f keep w1] obtain w2 where
    "runs_to (remove_last_snapshot ?E a keep) w1 w2"
    and S2: "snapshots w2 = snapshots w1 - {spec_generation (origin m) keep}"
    by blast
  then have 6: "runs_to (for_each (\<lambda>a. remove_last_snapshot ?E a keep) [a]) w1 w2"
    by (intro runs_to_single)
  have 7: "runs_to (case url of None \<Rightarrow> skip | Some u \<Rightarrow> send_notification ?E u ''up'' ''finish'')
      w2 w2"
    by (intro runs_to_idle idle_intros)
  have "runs_to (snapshot_manager ?E keep bcs url [a]) w w2"
    unfolding snapshot_manager_def
    by (rule runs_to_and_then [OF 1 runs_to_and_then [OF 2 runs_to_and_then [OF 3
          runs_to_and_then [OF 4 runs_to_and_then [OF 5 runs_to_and_then [OF 6 7]]]]]])
  with S1 S2 show ?thesis by (auto simp: cycle_state_def)
qed

lemma rotated_full:
  assumes "0 \<le> j" "j \<le> keep - 1"
  shows "rotated d keep (insert (spec_current d) (spec_generation d ` {1..j}))
         = spec_generation d ` {1..j + 1}"
proof -
  have a: "{i \<in> {1..keep - 1}. spec_generation d i \<in> insert (spec_current d) (spec_generation d ` {1..j})}
      = {1..j}"
    using assms by auto
  have b: "(\<lambda>i. spec_generation d (i + 1)) ` {1..j} = spec_generation d ` {2..j + 1}"
  proof (intro equalityI subsetI)
    fix x
    assume "x \<in> (\<lambda>i. spec_generation d (i + 1)) ` {1..j}"
    then obtain i where "i \<in> {1..j}" "x = spec_generation d (i + 1)" by auto
    then show "x \<in> spec_generation d ` {2..j + 1}" by auto
  next
    fix x
    assume "x \<in> spec_generation d ` {2..j + 1}"
    then obtain i where "i \<in> {2..j + 1}" "x = spec_generation d i" by auto
    then have "i - 1 \<in> {1..j}" "x = spec_generation d ((i - 1) + 1)" by auto
    then show "x \<in> (\<lambda>i. spec_generation d (i + 1)) ` {1..j}" by blast
  qed
  have c: "insert (spec_current d) (spec_generation d ` {1..j})
           - insert (spec_current d) (spec_generation d ` {1..keep}) = {}"
    using assms by auto
  have d: "{1..j + 1} = insert 1 {2..j + 1}" using assms by auto
  show ?thesis
    unfolding rotated_def a b c d by auto
qed

lemma cycle_state_expected:
  assumes "1 \<le> keep"
  shows "cycle_state d keep (expected_after d keep n) = expected_after d keep (Suc n)"
proof (cases "n = 0")
  case True
  then show ?thesis
    using assms by (auto simp: cycle_state_def expected_after_def rotated_def)
next
  case False
  let ?j = "min (int n - 1) (keep - 1)"
  have j: "0 \<le> ?j" "?j \<le> keep - 1" using False assms by auto
  have "cycle_state d keep (expected_after d keep n)
      = insert (spec_current d) (spec_generation d ` {1..?j + 1}) - {spec_generation d keep}"
    using False by (simp add: cycle_state_def expected_after_def rotated_full [OF j])
  also have "\<dots> = insert (spec_current d) (spec_generation d ` ({1..?j + 1} - {keep}))"
    by auto
  also have "{1..?j + 1} - {keep} = {1..min (int (Suc n) - 1) (keep - 1)}"
    using False assms by auto
  finally show ?thesis by (simp add: expected_after_def)
qed

lemma run_cycles_zfs:
  assumes "1 \<le> keep" "mounts a = [m]"
  shows "snapshots w = expected_after (origin m) keep k \<Longrightarrow>
     \<exists>w'. runs_to (run_cycles n (snapshot_manager (zfs_env never_fails f) keep bcs url [a])) w w'
       \<and> snapshots w' = expected_after (origin m) keep (k + n)"
proof (induction n arbitrary: w k)
  case 0
  then show ?case by (auto simp: runs_to_def skip_def)
next
  case (Suc n)
  from snapshot_manager_zfs [OF assms, of f bcs url w] obtain w1 where
    1: "runs_to (snapshot_manager (zfs_env never_fails f) keep bcs url [a]) w w1"
    and S1: "snapshots w1 = cycle_state (origin m) keep (snapshots w)"
    by blast
  have "snapshots w1 = expected_after (origin m) keep (Suc k)"
    unfolding S1 Suc.prems by (rule cycle_state_expected [OF assms(1)])
  from Suc.IH [OF this] obtain w' where
    2: "runs_to (run_cycles n (snapshot_manager (zfs_env never_fails f) keep bcs url [a])) w1 w'"
    and S': "snapshots w' = expected_after (origin m) keep (Suc k + n)"
    by blast
  have "runs_to (run_cycles (Suc n) (snapshot_manager (zfs_env never_fails f) keep bcs url [a])) w w'"
    using runs_to_and_then [OF 1 2] by simp
  with S' show ?case by auto
qed

lemma keeps_skip: "keeps I skip"
  by (simp add: keeps_def skip_def world_after_def)

lemma keeps_raise: "keeps I (raise e)"
  by (simp add: keeps_def raise_def world_after_def)

lemma keeps_and_then: "keeps I p \<Longrightarrow> keeps I q \<Longrightarrow> keeps I (and_then p q)"
  unfolding keeps_def
proof (intro allI impI)
  fix w
  assume p: "\<forall>w. I w \<longrightarrow> I (world_after (p w))" and q: "\<forall>w. I w \<longrightarrow> I (world_after (q w))"
    and w: "I w"
  obtain r w1 evs where pw: "p w = (r, w1, evs)" by (cases "p w") auto
  obtain r2 w2 evs2 where qw: "q w1 = (r2, w2, evs2)" by (cases "q w1") auto
  from p w pw have 1: "I w1" by (metis world_after_def fst_conv snd_conv)
  with q qw have 2: "I w2" by (metis world_after_def fst_conv snd_conv)
  show "I (world_after (and_then p q w))"
    using 1 2 by (cases r) (simp_all add: and_then_def pw qw world_after_def)
qed

lemma keeps_call:
  assumes "\<And>w. I w \<Longrightarrow> I (snd (subprocess_run E argv w))" "\<And>rc. keeps I (k rc)"
  shows "keeps I (call E argv k)"
  unfolding keeps_def
proof (intro allI impI)
  fix w
  assume w: "I w"
  obtain rc w1 where sw: "subprocess_run E argv w = (rc, w1)"
    by (cases "subprocess_run E argv w") auto
  obtain r w2 evs where kw: "k rc w1 = (r, w2, evs)" by (cases "k rc w1") auto
  from assms(1) [OF w] sw have "I w1" by simp
  with assms(2) [of rc] kw have "I w2" by (metis keeps_def world_after_def fst_conv snd_conv)
  then show "I (world_after (call E argv k w))"
    by (simp add: call_def sw kw world_after_def)
qed

lemma keeps_for_each:
  "(\<And>x. x \<in> set xs \<Longrightarrow> keeps I (body x)) \<Longrightarrow> keeps I (for_each body xs)"
proof (induction xs)
  case Nil
  show ?case by (simp add: keeps_def world_after_def)
next
  case (Cons x xs)
  have "keeps I (and_then (body x) (for_each body xs))"
    using Cons by (intro keeps_and_then) simp_all
  then show ?case by (simp add: for_each_Cons)
qed

lemma keeps_if: "keeps I p \<Longrightarrow> keeps I q \<Longrightarrow> keeps I (if b then p else q)"
  by simp

lemma keeps_option:
  "keeps I p \<Longrightarrow> (\<And>u. keeps I (q u)) \<Longrightarrow> keeps I (case x of None \<Rightarrow> p | Some u \<Rightarrow> q u)"
  by (cases x) simp_all

lemma keeps_send_notification: "keeps I (send_notification (zfs_env fails f) u s msg)"
  by (simp add: keeps_def send_notification_def zfs_env_def world_after_def)

lemmas keeps_intros =
  keeps_skip keeps_raise keeps_and_then keeps_call keeps_for_each keeps_if keeps_option
  keeps_send_notification

lemma bounded_record:
  "bounded A w \<Longrightarrow> S \<subseteq> A \<Longrightarrow> bounded A (record_state S w)"
  by (simp add: bounded_def record_state_def)

lemma bounded_list:
  "bounded A w \<Longrightarrow> bounded A (snd (subprocess_run (zfs_env never_fails f) (zfs_list x) w))"
  by (simp add: run_zfs_list)

lemma bounded_destroy:
  "bounded A w \<Longrightarrow> bounded A (snd (subprocess_run (zfs_env never_fails f) (zfs_destroy x) w))"
  by (auto simp: run_zfs_destroy bounded_def record_state_def)

lemma bounded_rename:
  "y \<in> A \<Longrightarrow> bounded A w
    \<Longrightarrow> bounded A (snd (subprocess_run (zfs_env never_fails f) (zfs_rename x y) w))"
  by (auto simp: run_zfs_rename bounded_def record_state_def)

lemma bounded_snapshot:
  "x \<in> A \<Longrightarrow> bounded A w
    \<Longrightarrow> bounded A (snd (subprocess_run (zfs_env never_fails f) (zfs_snapshot x) w))"
  by (auto simp: run_zfs_snapshot bounded_def record_state_def)

lemma bounded_other:
  "take 1 argv \<noteq> [''zfs''] \<Longrightarrow> bounded A w
    \<Longrightarrow> bounded A (snd (subprocess_run (zfs_env never_fails f) argv w))"
  by (simp add: run_other)

lemma set_range_down: "set (range_down n) = {1..n}"
  by (simp add: range_down_rev_upto)

lemma keeps_archive:
  assumes "1 \<le> keep"
    and "\<And>m i. m \<in> set (mounts a) \<Longrightarrow> 1 \<le> i \<Longrightarrow> i \<le> keep \<Longrightarrow> snapshot_aged m i \<in> A"
  shows "keeps (bounded A) (archive_snapshots (zfs_env never_fails f) a keep)"
  unfolding archive_snapshots_def archive_mount_def remove_mount_last_snapshot_def
    rename_mount_snapshots_def rename_mount_snapshot_def rename_mount_latest_snapshot_def
  using assms
  by (intro keeps_intros bounded_list bounded_destroy bounded_rename)
    (auto simp: set_range_down)

lemma keeps_snapshot_mounts:
  assumes "\<And>m. m \<in> set (mounts a) \<Longrightarrow> snapshot_latest m \<in> A"
  shows "keeps (bounded A) (snapshot_mounts (zfs_env never_fails f) a)"
  unfolding snapshot_mounts_def
  using assms
  by (intro keeps_intros bounded_snapshot) auto

lemma keeps_remove_last:
  "keeps (bounded A) (remove_last_snapshot (zfs_env never_fails f) a keep)"
  unfolding remove_last_snapshot_def remove_mount_last_snapshot_def
  by (intro keeps_intros bounded_list bounded_destroy)

lemma keeps_do_mount: "keeps (bounded A) (do_mount (zfs_env never_fails f) a)"
  unfolding do_mount_def unmount_mount_def mount_mount_def
  by (intro keeps_intros bounded_other)
    (simp_all add: mountpoint_q_def umount_def mkdir_p_def mount_zfs_def)

lemma keeps_containers:
  "keeps (bounded A) (stop_containers (zfs_env never_fails f) a)"
  "keeps (bounded A) (start_containers (zfs_env never_fails f) a)"
  "keeps (bounded A) (stop_backup_containers (zfs_env never_fails f) bcs)"
  "keeps (bounded A) (start_backup_containers (zfs_env never_fails f) bcs)"
  unfolding stop_containers_def start_containers_def stop_backup_containers_def
    start_backup_containers_def
  by (intro keeps_intros bounded_other; simp add: docker_stop_def docker_start_def)+

lemma keeps_snapshot_manager:
  assumes "1 \<le> keep"
    and "\<And>a m i. a \<in> set aps \<Longrightarrow> m \<in> set (mounts a) \<Longrightarrow> 1 \<le> i \<Longrightarrow> i \<le> keep
           \<Longrightarrow> snapshot_aged m i \<in> A"
    and "\<And>a m. a \<in> set aps \<Longrightarrow> m \<in> set (mounts a) \<Longrightarrow> snapshot_latest m \<in> A"
  shows "keeps (bounded A) (snapshot_manager (zfs_env never_fails f) keep bcs url aps)"
  unfolding snapshot_manager_def do_snapshot_def
  using assms
  by (intro keeps_intros keeps_archive keeps_snapshot_mounts keeps_remove_last keeps_do_mount
      keeps_containers) blast+

lemma keeps_run_cycles: "keeps I p \<Longrightarrow> keeps I (run_cycles n p)"
  by (induction n) (simp_all add: keeps_skip keeps_and_then)

section \<open>Retention over consecutive cycles\<close>

text \<open>
  Claim C2 (amended). With a snapshot tool that behaves as specified, for every retention
  \<open>keep\<close> of at least 1 and every application with a single mount, \<open>n\<close> consecutive
  cycles that start with no snapshot all succeed, and after them exactly the current
  snapshot and the generations 1 to \<open>min (n - 1) (keep - 1)\<close> exist: from \<open>keep\<close> cycles
  on, and so after \<open>keep + 1\<close> cycles, exactly the current snapshot and the \<open>keep - 1\<close>
  generations 1 to \<open>keep - 1\<close>. At no point of these cycles does a snapshot exist other
  than the current one and the generations 1 to \<open>keep\<close>.
\<close>

theorem cycles_keep_one_less:
  assumes "1 \<le> keep" and "mounts a = [m]"
  shows "\<exists>w' evs.
       run_cycles n (snapshot_manager (zfs_env never_fails f) keep bcs url [a]) empty_world
         = (Inr (), w', evs)
     \<and> snapshots w' = expected_after (origin m) keep n
     \<and> (if keep \<le> int n
        then snapshots w' =
          insert (spec_current (origin m)) (spec_generation (origin m) ` {1..keep - 1})
        else snapshots w' \<subseteq>
          insert (spec_current (origin m)) (spec_generation (origin m) ` {1..keep - 1}))
     \<and> list_all
         (\<lambda>S. S \<subseteq> insert (spec_current (origin m)) (spec_generation (origin m) ` {1..keep}))
         (history w')"
proof -
  let ?p = "snapshot_manager (zfs_env never_fails f) keep bcs url [a]"
  let ?A = "insert (spec_current (origin m)) (spec_generation (origin m) ` {1..keep})"
  have "snapshots empty_world = expected_after (origin m) keep 0"
    by (simp add: empty_world_def expected_after_def)
  from run_cycles_zfs [OF assms this, of n f bcs url] obtain w' evs where
    run: "run_cycles n ?p empty_world = (Inr (), w', evs)"
    and S: "snapshots w' = expected_after (origin m) keep n"
    unfolding runs_to_def by auto
  have "keeps (bounded ?A) ?p"
    using assms by (intro keeps_snapshot_manager) (auto simp: spec_commands)
  then have "keeps (bounded ?A) (run_cycles n ?p)"
    by (rule keeps_run_cycles)
  moreover have "bounded ?A empty_world"
    by (simp add: bounded_def empty_world_def)
  ultimately have "bounded ?A (world_after (run_cycles n ?p empty_world))"
    by (simp add: keeps_def)
  then have H: "list_all (\<lambda>S. S \<subseteq> ?A) (history w')"
    by (simp add: run world_after_def bounded_def)
  have E: "if keep \<le> int n
        then expected_after (origin m) keep n =
          insert (spec_current (origin m)) (spec_generation (origin m) ` {1..keep - 1})
        else expected_after (origin m) keep n \<subseteq>
          insert (spec_current (origin m)) (spec_generation (origin m) ` {1..keep - 1})"
    using assms(1) by (auto simp: expected_after_def min_def)
  from run S H E show ?thesis by auto
qed

theorem cycles_keep_one_less_witness:
  "\<exists>w' evs.
       run_cycles 3 (snapshot_manager (zfs_env never_fails NoFile) 2 [] None [blog]) empty_world
         = (Inr (), w', evs)
     \<and> snapshots w' = {''tank/blog@backup'', ''tank/blog@backup-1''}
     \<and> list_all
         (\<lambda>S. S \<subseteq> {''tank/blog@backup'', ''tank/blog@backup-1'', ''tank/blog@backup-2''})
         (history w')"
proof -
  let ?m = "\<lparr>origin = ''tank/blog'', destination = ''/mnt/blog'', children = []\<rparr>"
  have h1: "(1::int) \<le> 2" by simp
  have h2: "mounts blog = [?m]" by code_simp
  have e: "expected_after (origin ?m) 2 3 = {''tank/blog@backup'', ''tank/blog@backup-1''}"
    by code_simp
  have A: "insert (spec_current (origin ?m)) (spec_generation (origin ?m) ` {1..2})
      = {''tank/blog@backup'', ''tank/blog@backup-1'', ''tank/blog@backup-2''}"
    by code_simp
  show ?thesis
    using cycles_keep_one_less [OF h1 h2, of 3 NoFile "[]" None]
    unfolding e A by auto
qed

text \<open>
  The claim as first stated fails. With retention 2, three cycles on \<open>blog\<close> end with
  \<^verbatim>\<open>tank/blog@backup\<close> and \<^verbatim>\<open>tank/blog@backup-1\<close> only: the prune of the third cycle
  destroys \<^verbatim>\<open>tank/blog@backup-2\<close>. Generation 2 exists during the third cycle, between
  its rotation and its prune, and never after a cycle has ended.
\<close>

theorem three_cycles_leave_one_archived:
  "outcome (run_cycles 3 (snapshot_manager (zfs_env never_fails NoFile) 2 [] None [blog])
      empty_world) = Inr ()
   \<and> snapshots (world_after
       (run_cycles 3 (snapshot_manager (zfs_env never_fails NoFile) 2 [] None [blog])
          empty_world))
     = {''tank/blog@backup'', ''tank/blog@backup-1''}
   \<and> snapshots (world_after
       (run_cycles 3 (snapshot_manager (zfs_env never_fails NoFile) 2 [] None [blog])
          empty_world))
     \<noteq> {''tank/blog@backup'', ''tank/blog@backup-1'', ''tank/blog@backup-2''}
   \<and> history (world_after
       (run_cycles 3 (snapshot_manager (zfs_env never_fails NoFile) 2 [] None [blog])
          empty_world))
     = [{''tank/blog@backup''},
        {''tank/blog@backup-1''},
        {''tank/blog@backup'', ''tank/blog@backup-1''},
        {''tank/blog@backup'', ''tank/blog@backup-2''},
        {''tank/blog@backup-1'', ''tank/blog@backup-2''},
        {''tank/blog@backup'', ''tank/blog@backup-1'', ''tank/blog@backup-2''},
        {''tank/blog@backup'', ''tank/blog@backup-1''}]"
  by code_simp

section \<open>The order of the phases of a cycle\<close>

lemma for_each_ok_shapes:
  assumes "for_each body xs w = (Inr (), w', evs)"
    and "\<And>x w w' evs. x \<in> set xs \<Longrightarrow> body x w = (Inr (), w', evs) \<Longrightarrow> \<exists>d. Q x d \<and> evs = F x d"
  shows "\<exists>ds. list_all2 Q xs ds \<and> evs = concat (map (\<lambda>(x, d). F x d) (zip xs ds))"
  using assms
proof (induction xs arbitrary: w evs)
  case Nil
  then show ?case by simp
next
  case (Cons x xs)
  from for_each_Cons_ok [OF Cons.prems(1)] obtain w1 e1 e2 where
    b: "body x w = (Inr (), w1, e1)"
    and r: "for_each body xs w1 = (Inr (), w', e2)"
    and e: "evs = e1 @ e2"
    by blast
  from Cons.prems(2) [OF _ b] obtain d where d: "Q x d" "e1 = F x d" by auto
  have "\<exists>ds. list_all2 Q xs ds \<and> e2 = concat (map (\<lambda>(x, d). F x d) (zip xs ds))"
    by (rule Cons.IH [OF r]) (use Cons.prems(2) in auto)
  then obtain ds where ds: "list_all2 Q xs ds" "e2 = concat (map (\<lambda>(x, d). F x d) (zip xs ds))"
    by blast
  have "list_all2 Q (x # xs) (d # ds)" using d ds by simp
  moreover have "evs = concat (map (\<lambda>(x, d). F x d) (zip (x # xs) (d # ds)))"
    using e d ds by simp
  ultimately show ?case by blast
qed

lemma guarded_steps_ok:
  assumes "guarded_steps E steps w = (Inr (), w', evs)"
  shows "\<exists>rcs. length rcs = length steps \<and> evs = concat (map guarded_calls (zip steps rcs))"
  using assms
proof (induction steps arbitrary: w evs)
  case Nil
  then show ?case by simp
next
  case (Cons s steps)
  obtain snap action err where s: "s = (snap, action, err)" by (cases s) auto
  obtain rc w1 where c: "subprocess_run E (spec_exists_check snap) w = (rc, w1)"
    by (cases "subprocess_run E (spec_exists_check snap) w") auto
  show ?case
  proof (cases "rc = 0")
    case True
    obtain rc2 w2 where a: "subprocess_run E action w1 = (rc2, w2)"
      by (cases "subprocess_run E action w1") auto
    obtain r w3 evs3 where g: "guarded_steps E steps w2 = (r, w3, evs3)"
      by (cases "guarded_steps E steps w2") auto
    from Cons.prems have rc2: "rc2 = 0"
      unfolding s by (auto simp: c a g True split: if_splits)
    with Cons.prems have r: "r = Inr ()" "w3 = w'"
      and e: "evs = Ran (spec_exists_check snap) rc # Ran action 0 # evs3"
      unfolding s by (auto simp: c a g True)
    from Cons.IH [OF g [unfolded r]] obtain rcs where
      "length rcs = length steps" "evs3 = concat (map guarded_calls (zip steps rcs))"
      by blast
    then have "length (rc # rcs) = length (s # steps)
        \<and> evs = concat (map guarded_calls (zip (s # steps) (rc # rcs)))"
      using e True by (simp add: s guarded_calls_def)
    then show ?thesis by blast
  next
    case False
    obtain r w3 evs3 where g: "guarded_steps E steps w1 = (r, w3, evs3)"
      by (cases "guarded_steps E steps w1") auto
    with Cons.prems have r: "r = Inr ()" "w3 = w'"
      and e: "evs = Ran (spec_exists_check snap) rc # evs3"
      unfolding s by (auto simp: c g False)
    from Cons.IH [OF g [unfolded r]] obtain rcs where
      "length rcs = length steps" "evs3 = concat (map guarded_calls (zip steps rcs))"
      by blast
    then have "length (rc # rcs) = length (s # steps)
        \<and> evs = concat (map guarded_calls (zip (s # steps) (rc # rcs)))"
      using e False by (simp add: s guarded_calls_def)
    then show ?thesis by blast
  qed
qed

lemma archive_snapshots_steps:
  "archive_snapshots E a keep = guarded_steps E (app_archive_steps a keep)"
  unfolding archive_snapshots_def archive_mount_steps app_archive_steps_def
  by (rule for_each_concat)

lemma stop_containers_ok:
  assumes "(if containers a \<noteq> [] then stop_containers E a else skip) w = (Inr (), w', evs)"
  shows "evs = stop_calls (containers a)"
proof (cases "containers a = []")
  case True
  with assms show ?thesis by (simp add: skip_def stop_calls_def)
next
  case False
  with assms have "stop_containers E a w = (Inr (), w', evs)" by simp
  from checked_call_ok [OF this [unfolded stop_containers_def]] False
  show ?thesis by (simp add: stop_calls_def docker_stop_def)
qed

lemma start_containers_ok:
  assumes "(if containers a \<noteq> [] then start_containers E a else skip) w = (Inr (), w', evs)"
  shows "evs = start_calls (containers a)"
proof (cases "containers a = []")
  case True
  with assms show ?thesis by (simp add: skip_def start_calls_def)
next
  case False
  with assms have "start_containers E a w = (Inr (), w', evs)" by simp
  from checked_call_ok [OF this [unfolded start_containers_def]] False
  show ?thesis by (simp add: start_calls_def docker_start_def)
qed

lemma stop_backup_ok:
  assumes "(if bcs \<noteq> [] then stop_backup_containers E bcs else skip) w = (Inr (), w', evs)"
  shows "evs = stop_calls bcs"
proof (cases "bcs = []")
  case True
  with assms show ?thesis by (simp add: skip_def stop_calls_def)
next
  case False
  with assms have "stop_backup_containers E bcs w = (Inr (), w', evs)" by simp
  from checked_call_ok [OF this [unfolded stop_backup_containers_def]] False
  show ?thesis by (simp add: stop_calls_def docker_stop_def)
qed

lemma start_backup_ok:
  assumes "(if bcs \<noteq> [] then start_backup_containers E bcs else skip) w = (Inr (), w', evs)"
  shows "evs = start_calls bcs"
proof (cases "bcs = []")
  case True
  with assms show ?thesis by (simp add: skip_def start_calls_def)
next
  case False
  with assms have "start_backup_containers E bcs w = (Inr (), w', evs)" by simp
  from checked_call_ok [OF this [unfolded start_backup_containers_def]] False
  show ?thesis by (simp add: start_calls_def docker_start_def)
qed

lemma snapshot_mounts_ok:
  assumes "snapshot_mounts E a w = (Inr (), w', evs)"
  shows "evs = map (\<lambda>m. Ran [''zfs'', ''snapshot'', ''-r'', spec_current (origin m)] 0) (mounts a)"
  using checked_loop_ok [OF assms [unfolded snapshot_mounts_def]]
  by (simp add: zfs_snapshot_def snapshot_latest_def spec_current_def)

lemma do_snapshot_ok:
  assumes "do_snapshot E a keep w = (Inr (), w', evs)"
  shows "\<exists>rcs. length rcs = length (app_archive_steps a keep)
           \<and> evs = snapshot_phase_calls keep a rcs"
proof -
  from and_then_ok [OF assms [unfolded do_snapshot_def]] obtain w1 e1 r1 where
    a: "archive_snapshots E a keep w = (Inr (), w1, e1)"
    and k1: "and_then (if containers a \<noteq> [] then stop_containers E a else skip)
          (and_then (snapshot_mounts E a)
             (if containers a \<noteq> [] then start_containers E a else skip)) w1 = (Inr (), w', r1)"
    and e: "evs = e1 @ r1"
    by blast
  from and_then_ok [OF k1] obtain w2 e2 r2 where
    b: "(if containers a \<noteq> [] then stop_containers E a else skip) w1 = (Inr (), w2, e2)"
    and k2: "and_then (snapshot_mounts E a)
             (if containers a \<noteq> [] then start_containers E a else skip) w2 = (Inr (), w', r2)"
    and e': "r1 = e2 @ r2"
    by blast
  from and_then_ok [OF k2] obtain w3 e3 e4 where
    c: "snapshot_mounts E a w2 = (Inr (), w3, e3)"
    and d: "(if containers a \<noteq> [] then start_containers E a else skip) w3 = (Inr (), w', e4)"
    and e'': "r2 = e3 @ e4"
    by blast
  from guarded_steps_ok [OF a [unfolded archive_snapshots_steps]] obtain rcs where
    l: "length rcs = length (app_archive_steps a keep)"
    and e1: "e1 = concat (map guarded_calls (zip (app_archive_steps a keep) rcs))"
    by blast
  have "evs = snapshot_phase_calls keep a rcs"
    unfolding snapshot_phase_calls_def e e' e'' e1
      stop_containers_ok [OF b] snapshot_mounts_ok [OF c] start_containers_ok [OF d]
    by simp
  with l show ?thesis by blast
qed

lemma republish_ok:
  assumes "and_then (unmount_mount E m n) (mount_mount E m n) w = (Inr (), w', evs)"
  shows "\<exists>d. (case d of (rc, rcs) \<Rightarrow> length rcs = length (children m))
           \<and> evs = (case d of (rc, rcs) \<Rightarrow> republish_calls m rc rcs)"
proof -
  let ?rc = "fst (subprocess_run E [''mountpoint'', ''-q'', destination m] w)"
  from and_then_ok [OF assms] obtain w1 e1 e2 where
    u: "unmount_mount E m n w = (Inr (), w1, e1)"
    and mm: "mount_mount E m n w1 = (Inr (), w', e2)"
    and e: "evs = e1 @ e2"
    by blast
  from unmount_mount_ok [OF u] obtain rcs where
    len: "length rcs = length (children m)"
    and e1: "e1 = Ran [''mountpoint'', ''-q'', destination m] ?rc
         # (if ?rc = 0 then
              concat (map (child_unmount_calls m) (zip (children m) rcs))
              @ [Ran [''umount'', destination m] 0]
            else [])"
    by blast
  have "evs = republish_calls m ?rc rcs"
    unfolding e e1 mount_mount_ok [OF mm] republish_calls_def by simp
  with len show ?thesis by (intro exI [of _ "(?rc, rcs)"]) simp
qed

lemma do_mount_ok:
  assumes "do_mount E a w = (Inr (), w', evs)"
  shows "\<exists>sh. list_all2 (\<lambda>m (rc, rcs). length rcs = length (children m)) (mounts a) sh
           \<and> evs = remount_phase_calls a sh"
proof -
  have "\<exists>ds. list_all2 (\<lambda>m d. case d of (rc, rcs) \<Rightarrow> length rcs = length (children m))
               (mounts a) ds
     \<and> evs = concat (map (\<lambda>(m, d). case d of (rc, rcs) \<Rightarrow> republish_calls m rc rcs)
                (zip (mounts a) ds))"
    by (rule for_each_ok_shapes [OF assms [unfolded do_mount_def]]) (rule republish_ok)
  then show ?thesis by (simp add: remount_phase_calls_def)
qed

lemma remove_last_snapshot_ok:
  assumes "remove_last_snapshot E a keep w = (Inr (), w', evs)"
  shows "\<exists>rcs. length rcs = length (mounts a) \<and> evs = prune_phase_calls keep a rcs"
proof -
  have "\<exists>ds. list_all2 (\<lambda>m rc. True) (mounts a) ds
     \<and> evs = concat (map (\<lambda>(m, rc).
         Ran (spec_exists_check (spec_generation (origin m) keep)) rc
         # (if rc = 0 then [Ran (spec_destroy (spec_generation (origin m) keep)) 0] else []))
       (zip (mounts a) ds))"
  proof (rule for_each_ok_shapes [OF assms [unfolded remove_last_snapshot_def]])
    fix m w w' evs
    assume "remove_mount_last_snapshot E m (name a) keep w = (Inr (), w', evs)"
    from guarded_call_ok [OF this [unfolded remove_mount_last_snapshot_def]]
    have "\<exists>rc. evs =
         Ran (spec_exists_check (spec_generation (origin m) keep)) rc
         # (if rc = 0 then [Ran (spec_destroy (spec_generation (origin m) keep)) 0] else [])"
      unfolding spec_commands .
    then show "\<exists>rc. True \<and> evs =
         Ran (spec_exists_check (spec_generation (origin m) keep)) rc
         # (if rc = 0 then [Ran (spec_destroy (spec_generation (origin m) keep)) 0] else [])"
      by simp
  qed
  then obtain ds where "list_all2 (\<lambda>m rc. True) (mounts a) ds"
    and e: "evs = prune_phase_calls keep a ds"
    unfolding prune_phase_calls_def by blast
  then have "length ds = length (mounts a)" by (simp add: list_all2_lengthD)
  with e show ?thesis by blast
qed

lemma note_ok:
  assumes "(case url of None \<Rightarrow> skip | Some u \<Rightarrow> send_notification E u ''up'' msg) w
     = (Inr (), w', evs)"
  shows "\<exists>reply. evs = note_calls url msg reply"
proof (cases url)
  case None
  with assms show ?thesis by (simp add: skip_def note_calls_def)
next
  case (Some u)
  with assms show ?thesis
    by (auto simp: send_notification_def note_calls_def notify_params_def split: prod.splits)
qed

text \<open>
  Claim C6. For every environment, retention, backup-container list, monitor URL and
  list of applications, the calls of a successful cycle are, in this order: the start
  notification; for each application in order, its rotation (archive), then the stop of
  its containers, then the creation of its snapshots, then the start of its containers;
  only then the stop of the backup containers; then for each application in order the
  unmount and remount of each of its mounts; then the start of the backup containers;
  then for each application in order the prune; then the finish notification. Every
  prune call therefore comes after the start of the backup containers and after the start
  of the containers of every application.
\<close>

theorem cycle_phase_order:
  assumes "snapshot_manager E keep bcs url aps w = (Inr (), w', evs)"
  shows "\<exists>reply1 reply2 arcs shapes prcs.
       list_all2 (\<lambda>a rcs. length rcs = length (app_archive_steps a keep)) aps arcs
     \<and> list_all2 (\<lambda>a sh.
           list_all2 (\<lambda>m (rc, rcs). length rcs = length (children m)) (mounts a) sh) aps shapes
     \<and> list_all2 (\<lambda>a rcs. length rcs = length (mounts a)) aps prcs
     \<and> evs = cycle_calls keep bcs url aps reply1 reply2 arcs shapes prcs"
proof -
  from and_then_ok [OF assms [unfolded snapshot_manager_def]] obtain w1 e1 r1 where
    p1: "(case url of None \<Rightarrow> skip | Some u \<Rightarrow> send_notification E u ''up'' ''start'') w
          = (Inr (), w1, e1)"
    and k1: "and_then (for_each (\<lambda>a. do_snapshot E a keep) aps)
          (and_then (if bcs \<noteq> [] then stop_backup_containers E bcs else skip)
             (and_then (for_each (do_mount E) aps)
                (and_then (if bcs \<noteq> [] then start_backup_containers E bcs else skip)
                   (and_then (for_each (\<lambda>a. remove_last_snapshot E a keep) aps)
                      (case url of None \<Rightarrow> skip
                       | Some u \<Rightarrow> send_notification E u ''up'' ''finish''))))) w1
          = (Inr (), w', r1)"
    and c1: "evs = e1 @ r1"
    by blast
  from and_then_ok [OF k1] obtain w2 e2 r2 where
    p2: "for_each (\<lambda>a. do_snapshot E a keep) aps w1 = (Inr (), w2, e2)"
    and k2: "and_then (if bcs \<noteq> [] then stop_backup_containers E bcs else skip)
             (and_then (for_each (do_mount E) aps)
                (and_then (if bcs \<noteq> [] then start_backup_containers E bcs else skip)
                   (and_then (for_each (\<lambda>a. remove_last_snapshot E a keep) aps)
                      (case url of None \<Rightarrow> skip
                       | Some u \<Rightarrow> send_notification E u ''up'' ''finish'')))) w2
          = (Inr (), w', r2)"
    and c2: "r1 = e2 @ r2"
    by blast
  from and_then_ok [OF k2] obtain w3 e3 r3 where
    p3: "(if bcs \<noteq> [] then stop_backup_containers E bcs else skip) w2 = (Inr (), w3, e3)"
    and k3: "and_then (for_each (do_mount E) aps)
                (and_then (if bcs \<noteq> [] then start_backup_containers E bcs else skip)
                   (and_then (for_each (\<lambda>a. remove_last_snapshot E a keep) aps)
                      (case url of None \<Rightarrow> skip
                       | Some u \<Rightarrow> send_notification E u ''up'' ''finish''))) w3
          = (Inr (), w', r3)"
    and c3: "r2 = e3 @ r3"
    by blast
  from and_then_ok [OF k3] obtain w4 e4 r4 where
    p4: "for_each (do_mount E) aps w3 = (Inr (), w4, e4)"
    and k4: "and_then (if bcs \<noteq> [] then start_backup_containers E bcs else skip)
                   (and_then (for_each (\<lambda>a. remove_last_snapshot E a keep) aps)
                      (case url of None \<Rightarrow> skip
                       | Some u \<Rightarrow> send_notification E u ''up'' ''finish'')) w4
          = (Inr (), w', r4)"
    and c4: "r3 = e4 @ r4"
    by blast
  from and_then_ok [OF k4] obtain w5 e5 r5 where
    p5: "(if bcs \<noteq> [] then start_backup_containers E bcs else skip) w4 = (Inr (), w5, e5)"
    and k5: "and_then (for_each (\<lambda>a. remove_last_snapshot E a keep) aps)
                      (case url of None \<Rightarrow> skip
                       | Some u \<Rightarrow> send_notification E u ''up'' ''finish'') w5
          = (Inr (), w', r5)"
    and c5: "r4 = e5 @ r5"
    by blast
  from and_then_ok [OF k5] obtain w6 e6 e7 where
    p6: "for_each (\<lambda>a. remove_last_snapshot E a keep) aps w5 = (Inr (), w6, e6)"
    and p7: "(case url of None \<Rightarrow> skip | Some u \<Rightarrow> send_notification E u ''up'' ''finish'') w6
          = (Inr (), w', e7)"
    and c6: "r5 = e6 @ e7"
    by blast
  from note_ok [OF p1] obtain reply1 where n1: "e1 = note_calls url ''start'' reply1" by blast
  from note_ok [OF p7] obtain reply2 where n2: "e7 = note_calls url ''finish'' reply2" by blast
  have "\<exists>arcs. list_all2 (\<lambda>a rcs. length rcs = length (app_archive_steps a keep)) aps arcs
     \<and> e2 = concat (map (\<lambda>(a, rcs). snapshot_phase_calls keep a rcs) (zip aps arcs))"
    by (rule for_each_ok_shapes [OF p2]) (rule do_snapshot_ok)
  then obtain arcs where
    a1: "list_all2 (\<lambda>a rcs. length rcs = length (app_archive_steps a keep)) aps arcs"
    and a2: "e2 = concat (map (\<lambda>(a, rcs). snapshot_phase_calls keep a rcs) (zip aps arcs))"
    by blast
  have "\<exists>shapes. list_all2 (\<lambda>a sh.
           list_all2 (\<lambda>m (rc, rcs). length rcs = length (children m)) (mounts a) sh) aps shapes
     \<and> e4 = concat (map (\<lambda>(a, sh). remount_phase_calls a sh) (zip aps shapes))"
    by (rule for_each_ok_shapes [OF p4]) (rule do_mount_ok)
  then obtain shapes where
    s1: "list_all2 (\<lambda>a sh.
           list_all2 (\<lambda>m (rc, rcs). length rcs = length (children m)) (mounts a) sh) aps shapes"
    and s2: "e4 = concat (map (\<lambda>(a, sh). remount_phase_calls a sh) (zip aps shapes))"
    by blast
  have "\<exists>prcs. list_all2 (\<lambda>a rcs. length rcs = length (mounts a)) aps prcs
     \<and> e6 = concat (map (\<lambda>(a, rcs). prune_phase_calls keep a rcs) (zip aps prcs))"
    by (rule for_each_ok_shapes [OF p6]) (rule remove_last_snapshot_ok)
  then obtain prcs where
    q1: "list_all2 (\<lambda>a rcs. length rcs = length (mounts a)) aps prcs"
    and q2: "e6 = concat (map (\<lambda>(a, rcs). prune_phase_calls keep a rcs) (zip aps prcs))"
    by blast
  have "evs = cycle_calls keep bcs url aps reply1 reply2 arcs shapes prcs"
    unfolding cycle_calls_def c1 c2 c3 c4 c5 c6 n1 n2 a2 s2 q2
      stop_backup_ok [OF p3] start_backup_ok [OF p5]
    by simp
  with a1 s1 q1 show ?thesis by blast
qed

theorem cycle_phase_order_witness:
  "(\<exists>reply1 reply2 arcs shapes prcs.
       list_all2 (\<lambda>a rcs. length rcs = length (app_archive_steps a 2)) [web_app, blog] arcs
     \<and> list_all2 (\<lambda>a sh.
           list_all2 (\<lambda>m (rc, rcs). length rcs = length (children m)) (mounts a) sh)
         [web_app, blog] shapes
     \<and> list_all2 (\<lambda>a rcs. length rcs = length (mounts a)) [web_app, blog] prcs
     \<and> two_app_trace = cycle_calls 2 [''rsync''] (Some ''http://kuma'') [web_app, blog]
         reply1 reply2 arcs shapes prcs)
   \<and> two_app_trace = cycle_calls 2 [''rsync''] (Some ''http://kuma'') [web_app, blog]
       (JsonBody (Some True)) (JsonBody (Some True))
       [[1, 1, 1], [0, 0, 0]] [[(0, [0])], [(0, [])]] [[1], [0]]"
proof -
  have h: "snapshot_manager (zfs_env never_fails NoFile) 2 [''rsync''] (Some ''http://kuma'')
       [web_app, blog] three_snapshots =
     (Inr (),
      \<lparr>snapshots = {''tank/blog@backup'', ''tank/blog@backup-1'', ''tank/web@backup''}, 
      history =
        [{''tank/web@backup'', ''tank/blog@backup'', ''tank/blog@backup-1'', ''tank/blog@backup-2''},
         {''tank/web@backup'', ''tank/blog@backup'', ''tank/blog@backup-1''},
         {''tank/blog@backup-2'', ''tank/web@backup'', ''tank/blog@backup''},
         {''tank/blog@backup-1'', ''tank/blog@backup-2'', ''tank/web@backup''},
         {''tank/blog@backup'', ''tank/blog@backup-1'', ''tank/blog@backup-2'', ''tank/web@backup''},
         {''tank/blog@backup'', ''tank/blog@backup-1'', ''tank/web@backup''}]\<rparr>,
      two_app_trace)"
    by code_simp
  have c: "two_app_trace = cycle_calls 2 [''rsync''] (Some ''http://kuma'') [web_app, blog]
       (JsonBody (Some True)) (JsonBody (Some True))
       [[1, 1, 1], [0, 0, 0]] [[(0, [0])], [(0, [])]] [[1], [0]]"
    by code_simp
  show ?thesis
    by (rule conjI [OF cycle_phase_order [OF h] c])
qed

end
